theory Spec2Isabelle
  imports Main "HOL-Library.Word"
begin

section \<open>The EncryptedLuckyDraw contract\<close>

text \<open>
  A shallow embedding of \<^verbatim>\<open>contracts/EncryptedLuckyDraw.sol\<close>. Every external function
  of the contract is a function from the call's context and the storage before the call
  to either a revert reason or the storage after the call. A transaction that reverts
  leaves the storage as it was.
\<close>

subsection \<open>Solidity value types\<close>

type_synonym address = "160 word"
type_synonym uint256 = "256 word"
type_synonym uint32 = "32 word"
type_synonym bytes32 = "256 word"
type_synonym bytes = "8 word list"

subsection \<open>The encryption library\<close>

text \<open>
  The contract imports \<^verbatim>\<open>FHE\<close>, \<^verbatim>\<open>euint32\<close>, \<^verbatim>\<open>ebool\<close> and \<^verbatim>\<open>externalEuint32\<close> from
  the platform's library: ciphertexts are opaque 32-byte handles. The library derives the
  handle of a result from the operation and its operands alone, so equal calls give equal
  handles: \<^verbatim>\<open>FHE.asEbool(false)\<close> is the same handle at every call. A handle is
  modelled by the term of library calls that produced it, so two handles are equal exactly
  when they were computed by the same operation from the same operands, and decryption
  evaluates the term. \<open>ZeroHandle\<close> is the value of a storage slot that was never written.
  \<^verbatim>\<open>FHE.allow\<close> and \<^verbatim>\<open>FHE.allowThis\<close> add a grant to the library's access-control
  list; the library's check that the contract itself may use the handle it passes is
  not part of the model.
\<close>

datatype handle =
    ZeroHandle
  | TrivialEncryptBool bool
  | TrivialEncrypt32 uint32
  | VerifiedInput bytes32
  | FheEq handle handle

type_synonym euint32 = handle
type_synonym ebool = handle
type_synonym externalEuint32 = bytes32

text \<open>
  The cleartext behind a handle. The cleartext of a participant's input is known to the
  participant alone and the zero handle is no ciphertext: neither has a value here.
\<close>

fun decrypt32 :: "euint32 \<Rightarrow> uint32 option" where
  "decrypt32 (TrivialEncrypt32 v) = Some v"
| "decrypt32 _ = None"

fun decryptBool :: "ebool \<Rightarrow> bool option" where
  "decryptBool (TrivialEncryptBool b) = Some b"
| "decryptBool (FheEq a b) =
     (case (decrypt32 a, decrypt32 b) of
        (Some x, Some y) \<Rightarrow> Some (x = y)
      | _ \<Rightarrow> None)"
| "decryptBool _ = None"

subsection \<open>Errors and events\<close>

datatype error =
    AlreadyRegistered
  | NotRegistered
  | NotAuthorized
  | NoParticipants
  | Error string
  | Panic nat
  | InvalidInputProof
  | OutOfGas

datatype event =
    ParticipantRegistered address uint32
  | WinnerDrawn bytes32 uint256

subsection \<open>The context of a call\<close>

text \<open>
  What the virtual machine provides to a call: the caller, the properties of the current
  block, the hash of an earlier block, the \<^verbatim>\<open>keccak256\<close> built-in (here on a sequence of
  32-byte words: every value the contract hashes is one, so \<^verbatim>\<open>abi.encode\<close> and
  \<^verbatim>\<open>abi.encodePacked\<close> both give their concatenation), the library's check of an
  input ciphertext against its proof, and what the transaction can pay for. Every pass of
  the loop of \<^verbatim>\<open>drawWinner\<close> writes storage and calls the library five times, so the gas
  and the library's compute units allotted to one transaction pay for a limited number of
  passes, \<open>gas_passes\<close>; a draw over a longer list runs out and reverts. A storage write
  alone costs thousands of gas and a block holds some tens of millions, so no transaction
  pays for \<open>2\<^sup>3\<^sup>2\<close> passes: the number is a 32-bit word.
\<close>

record evm =
  msg_sender :: address
  block_number :: uint256
  blockhash :: "uint256 \<Rightarrow> bytes32"
  block_prevrandao :: uint256
  block_timestamp :: uint256
  keccak256 :: "uint256 list \<Rightarrow> bytes32"
  verifyCiphertext :: "bytes32 \<Rightarrow> address \<Rightarrow> bytes \<Rightarrow> bool"
  gas_passes :: uint32

subsection \<open>Storage\<close>

text \<open>
  The two immutables, the eight storage variables (\<^verbatim>\<open>_participants\<close> is \<open>s_participants\<close>
  and so on), the contract's own address, the access-control list of the encryption
  library as the set of (handle, account) grants, and the log of emitted events. The
  length of \<^verbatim>\<open>_participants\<close> is a \<^verbatim>\<open>uint256\<close> that no array overflows; it is the length
  of the list, converted to a word where the code hashes, casts or returns it.
\<close>

record state =
  ADMIN_ADDRESS :: address
  MAX_PARTICIPANTS :: uint256
  this_address :: address
  s_participants :: "address list"
  s_registered :: "address \<Rightarrow> bool"
  s_indices :: "address \<Rightarrow> uint32"
  s_encryptedIds :: "address \<Rightarrow> euint32"
  s_winStatus :: "address \<Rightarrow> ebool"
  s_encryptedWinnerIndex :: euint32
  s_hasDrawn :: bool
  s_lastDrawTimestamp :: uint256
  acl :: "(handle \<times> address) set"
  logs :: "event list"

definition FHE_asEbool :: "bool \<Rightarrow> ebool" where
  "FHE_asEbool b = TrivialEncryptBool b"

definition FHE_asEuint32 :: "uint32 \<Rightarrow> euint32" where
  "FHE_asEuint32 v = TrivialEncrypt32 v"

definition FHE_eq :: "euint32 \<Rightarrow> euint32 \<Rightarrow> ebool" where
  "FHE_eq a b = FheEq a b"

definition FHE_fromExternal :: "evm \<Rightarrow> externalEuint32 \<Rightarrow> bytes \<Rightarrow> error + euint32" where
  "FHE_fromExternal e inputHandle inputProof =
     (if verifyCiphertext e inputHandle (msg_sender e) inputProof
      then Inr (VerifiedInput inputHandle) else Inl InvalidInputProof)"

definition FHE_allow :: "handle \<Rightarrow> address \<Rightarrow> state \<Rightarrow> state" where
  "FHE_allow h account s = s\<lparr>acl := insert (h, account) (acl s)\<rparr>"

definition FHE_allowThis :: "handle \<Rightarrow> state \<Rightarrow> state" where
  "FHE_allowThis h s = FHE_allow h (this_address s) s"

definition emit :: "event \<Rightarrow> state \<Rightarrow> state" where
  "emit ev s = s\<lparr>logs := logs s @ [ev]\<rparr>"

subsection \<open>Constructor\<close>

definition constructor :: "address \<Rightarrow> address \<Rightarrow> uint256 \<Rightarrow> state" where
  "constructor deployer this maxParticipants =
     \<lparr>ADMIN_ADDRESS = deployer,
      MAX_PARTICIPANTS = maxParticipants,
      this_address = this,
      s_participants = [],
      s_registered = (\<lambda>_. False),
      s_indices = (\<lambda>_. 0),
      s_encryptedIds = (\<lambda>_. ZeroHandle),
      s_winStatus = (\<lambda>_. ZeroHandle),
      s_encryptedWinnerIndex = ZeroHandle,
      s_hasDrawn = False,
      s_lastDrawTimestamp = 0,
      acl = {},
      logs = []\<rparr>"

subsection \<open>register\<close>

definition register :: "evm \<Rightarrow> externalEuint32 \<Rightarrow> bytes \<Rightarrow> state \<Rightarrow> error + state" where
  "register e encryptedIdInput inputProof s =
     (if s_registered s (msg_sender e) then Inl AlreadyRegistered
      else if length (s_participants s) \<ge> unat (MAX_PARTICIPANTS s)
      then Inl (Error ''Maximum participants reached'')
      else case FHE_fromExternal e encryptedIdInput inputProof of
        Inl err \<Rightarrow> Inl err
      | Inr encryptedId \<Rightarrow>
          let s1 = s\<lparr>s_participants := s_participants s @ [msg_sender e]\<rparr>;
              participantIndex = (of_nat (length (s_participants s1) - 1) :: uint32);
              s2 = s1\<lparr>s_indices := (s_indices s1)(msg_sender e := participantIndex)\<rparr>;
              s3 = s2\<lparr>s_registered := (s_registered s2)(msg_sender e := True)\<rparr>;
              s4 = s3\<lparr>s_encryptedIds := (s_encryptedIds s3)(msg_sender e := encryptedId)\<rparr>;
              s5 = FHE_allowThis (s_encryptedIds s4 (msg_sender e)) s4;
              s6 = FHE_allow (s_encryptedIds s5 (msg_sender e)) (msg_sender e) s5;
              initialWin = FHE_asEbool False;
              s7 = s6\<lparr>s_winStatus := (s_winStatus s6)(msg_sender e := initialWin)\<rparr>;
              s8 = FHE_allowThis (s_winStatus s7 (msg_sender e)) s7;
              s9 = FHE_allow (s_winStatus s8 (msg_sender e)) (msg_sender e) s8;
              s10 = (if s_hasDrawn s9
                     then FHE_allow (s_encryptedWinnerIndex s9) (msg_sender e) s9
                     else s9)
          in Inr (emit (ParticipantRegistered (msg_sender e) participantIndex) s10))"

subsection \<open>drawWinner\<close>

text \<open>One pass of the loop body, for the participant at position \<open>i\<close>.\<close>

definition draw_body :: "nat \<Rightarrow> state \<Rightarrow> state" where
  "draw_body i s =
     (let participant = s_participants s ! i;
          isWinner = FHE_eq (s_encryptedWinnerIndex s) (FHE_asEuint32 (of_nat i));
          s1 = s\<lparr>s_winStatus := (s_winStatus s)(participant := isWinner)\<rparr>;
          s2 = FHE_allowThis (s_winStatus s1 participant) s1;
          s3 = FHE_allow (s_winStatus s2 participant) participant s2
      in FHE_allow (s_encryptedWinnerIndex s3) participant s3)"

text \<open>
  The loop \<^verbatim>\<open>for (uint256 i = 0; i < count; ++i)\<close>, in a transaction that pays for
  \<open>paid\<close> passes: the pass for position \<open>i\<close> runs when \<open>i < paid\<close>, and the transaction
  runs out and reverts otherwise. Reading \<^verbatim>\<open>_participants[i]\<close> past the end of the array
  is the panic \<^verbatim>\<open>0x32\<close>.
\<close>

function draw_loop :: "nat \<Rightarrow> nat \<Rightarrow> nat \<Rightarrow> state \<Rightarrow> error + state" where
  "draw_loop paid i count s =
     (if i < count
      then (if i < paid
            then (if i < length (s_participants s)
                  then draw_loop paid (i + 1) count (draw_body i s)
                  else Inl (Panic 0x32))
            else Inl OutOfGas)
      else Inr s)"
  by pat_completeness auto
termination
  by (relation "measure (\<lambda>(paid, i, count, s). count - i)") auto

declare draw_loop.simps [simp del]

text \<open>
  The seed, the winning slot and the commitment of a draw. \<^verbatim>\<open>block.number - 1\<close> is
  checked arithmetic: in block 0 it is the panic \<^verbatim>\<open>0x11\<close>, raised in \<open>drawWinner\<close>.
\<close>

definition randomSeed :: "evm \<Rightarrow> state \<Rightarrow> uint256" where
  "randomSeed e s =
     keccak256 e
       [blockhash e (block_number e - 1),
        block_prevrandao e,
        block_timestamp e,
        of_nat (length (s_participants s)),
        s_lastDrawTimestamp s]"

definition winnerIndex :: "evm \<Rightarrow> state \<Rightarrow> uint32" where
  "winnerIndex e s = of_nat (unat (randomSeed e s) mod length (s_participants s))"

definition commitment :: "evm \<Rightarrow> state \<Rightarrow> bytes32" where
  "commitment e s =
     keccak256 e [randomSeed e s, block_number e, blockhash e (block_number e - 1)]"

definition drawWinner :: "evm \<Rightarrow> state \<Rightarrow> error + state" where
  "drawWinner e s =
     (if msg_sender e \<noteq> ADMIN_ADDRESS s then Inl NotAuthorized
      else
        let count = length (s_participants s) in
        if count = 0 then Inl NoParticipants
        else if block_number e = 0 then Inl (Panic 0x11)
        else
          let s1 = s\<lparr>s_encryptedWinnerIndex := FHE_asEuint32 (winnerIndex e s)\<rparr>;
              s2 = s1\<lparr>s_lastDrawTimestamp := block_timestamp e\<rparr>;
              s3 = s2\<lparr>s_hasDrawn := True\<rparr>;
              s4 = FHE_allowThis (s_encryptedWinnerIndex s3) s3
          in case draw_loop (unat (gas_passes e)) 0 count s4 of
               Inl err \<Rightarrow> Inl err
             | Inr s5 \<Rightarrow> Inr (emit (WinnerDrawn (commitment e s) (of_nat count)) s5))"

subsection \<open>Views\<close>

definition isRegistered :: "state \<Rightarrow> address \<Rightarrow> bool" where
  "isRegistered s participant = s_registered s participant"

definition participantCount :: "state \<Rightarrow> uint256" where
  "participantCount s = of_nat (length (s_participants s))"

definition getEncryptedId :: "state \<Rightarrow> address \<Rightarrow> error + euint32" where
  "getEncryptedId s participant =
     (if \<not> s_registered s participant then Inl NotRegistered
      else Inr (s_encryptedIds s participant))"

definition getEncryptedWinStatus :: "state \<Rightarrow> address \<Rightarrow> error + ebool" where
  "getEncryptedWinStatus s participant =
     (if \<not> s_registered s participant then Inl NotRegistered
      else Inr (s_winStatus s participant))"

definition getEncryptedWinnerIndex :: "state \<Rightarrow> euint32" where
  "getEncryptedWinnerIndex s = s_encryptedWinnerIndex s"

definition admin :: "state \<Rightarrow> address" where
  "admin s = ADMIN_ADDRESS s"

definition maxParticipants :: "state \<Rightarrow> uint256" where
  "maxParticipants s = MAX_PARTICIPANTS s"

definition lastDrawTimestamp :: "state \<Rightarrow> uint256" where
  "lastDrawTimestamp s = s_lastDrawTimestamp s"

subsection \<open>Transactions\<close>

text \<open>
  The two state-changing entry points. A transaction that reverts changes nothing: the
  storage, the access-control list and the log are those before the call.
\<close>

datatype call = Register externalEuint32 bytes | DrawWinner

fun exec :: "evm \<Rightarrow> call \<Rightarrow> state \<Rightarrow> error + state" where
  "exec e (Register encryptedIdInput inputProof) s = register e encryptedIdInput inputProof s"
| "exec e DrawWinner s = drawWinner e s"

definition transact :: "state \<Rightarrow> evm \<times> call \<Rightarrow> state" where
  "transact s tx = (case exec (fst tx) (snd tx) s of Inl err \<Rightarrow> s | Inr s' \<Rightarrow> s')"

definition run :: "state \<Rightarrow> (evm \<times> call) list \<Rightarrow> state" where
  "run s txs = foldl transact s txs"

section \<open>Predicates of the verification\<close>

subsection \<open>The loop and the outcome of a draw\<close>

text \<open>
  The grants of the first \<open>j\<close> passes of the loop, and what holds after \<open>j\<close> passes over a
  list without duplicates.
\<close>

definition drawn_grants :: "state \<Rightarrow> nat \<Rightarrow> (handle \<times> address) set" where
  "drawn_grants s j =
     (\<Union>k\<in>{..<j}.
        {(FheEq (s_encryptedWinnerIndex s) (TrivialEncrypt32 (of_nat k)), this_address s),
         (FheEq (s_encryptedWinnerIndex s) (TrivialEncrypt32 (of_nat k)), s_participants s ! k),
         (s_encryptedWinnerIndex s, s_participants s ! k)})"

definition loop_inv :: "state \<Rightarrow> nat \<Rightarrow> state \<Rightarrow> bool" where
  "loop_inv s j t \<longleftrightarrow>
     ADMIN_ADDRESS t = ADMIN_ADDRESS s \<and>
     MAX_PARTICIPANTS t = MAX_PARTICIPANTS s \<and>
     this_address t = this_address s \<and>
     s_participants t = s_participants s \<and>
     s_registered t = s_registered s \<and>
     s_indices t = s_indices s \<and>
     s_encryptedIds t = s_encryptedIds s \<and>
     s_encryptedWinnerIndex t = s_encryptedWinnerIndex s \<and>
     s_hasDrawn t = s_hasDrawn s \<and>
     s_lastDrawTimestamp t = s_lastDrawTimestamp s \<and>
     logs t = logs s \<and>
     acl t = acl s \<union> drawn_grants s j \<and>
     (\<forall>k < length (s_participants s).
        s_winStatus t (s_participants s ! k) =
          (if k < j then FheEq (s_encryptedWinnerIndex s) (TrivialEncrypt32 (of_nat k))
           else s_winStatus s (s_participants s ! k))) \<and>
     (\<forall>a. a \<notin> set (s_participants s) \<longrightarrow> s_winStatus t a = s_winStatus s a)"

text \<open>
  The state after a successful draw in context \<open>e\<close> from state \<open>s\<close>, field by field.
\<close>

definition draw_post :: "evm \<Rightarrow> state \<Rightarrow> state \<Rightarrow> bool" where
  "draw_post e s s' \<longleftrightarrow>
     ADMIN_ADDRESS s' = ADMIN_ADDRESS s \<and>
     MAX_PARTICIPANTS s' = MAX_PARTICIPANTS s \<and>
     this_address s' = this_address s \<and>
     s_participants s' = s_participants s \<and>
     s_registered s' = s_registered s \<and>
     s_indices s' = s_indices s \<and>
     s_encryptedIds s' = s_encryptedIds s \<and>
     s_encryptedWinnerIndex s' = TrivialEncrypt32 (winnerIndex e s) \<and>
     s_hasDrawn s' \<and>
     s_lastDrawTimestamp s' = block_timestamp e \<and>
     logs s' = logs s @ [WinnerDrawn (commitment e s) (of_nat (length (s_participants s)))] \<and>
     acl s' = acl s \<union> {(TrivialEncrypt32 (winnerIndex e s), this_address s)} \<union>
       (\<Union>k\<in>{..<length (s_participants s)}.
          {(FheEq (TrivialEncrypt32 (winnerIndex e s)) (TrivialEncrypt32 (of_nat k)), this_address s),
           (FheEq (TrivialEncrypt32 (winnerIndex e s)) (TrivialEncrypt32 (of_nat k)), s_participants s ! k),
           (TrivialEncrypt32 (winnerIndex e s), s_participants s ! k)}) \<and>
     (\<forall>k < length (s_participants s).
        s_winStatus s' (s_participants s ! k) =
          FheEq (TrivialEncrypt32 (winnerIndex e s)) (TrivialEncrypt32 (of_nat k))) \<and>
     (\<forall>a. a \<notin> set (s_participants s) \<longrightarrow> s_winStatus s' a = s_winStatus s a)"

subsection \<open>The registry\<close>

text \<open>
  The registry is consistent when the array has no duplicates, the registered addresses
  are those of the array, and the slot stored for the participant at position \<open>i\<close> is
  \<open>i\<close>. \<open>registry_ok\<close> is the same with the slot read as the code writes it,
  \<^verbatim>\<open>uint32(i)\<close>.
\<close>

definition registry_consistent :: "state \<Rightarrow> bool" where
  "registry_consistent s \<longleftrightarrow>
     distinct (s_participants s) \<and>
     (\<forall>a. isRegistered s a \<longleftrightarrow> a \<in> set (s_participants s)) \<and>
     (\<forall>i < length (s_participants s). unat (s_indices s (s_participants s ! i)) = i)"

definition registry_ok :: "state \<Rightarrow> bool" where
  "registry_ok s \<longleftrightarrow>
     distinct (s_participants s) \<and>
     (\<forall>a. isRegistered s a \<longleftrightarrow> a \<in> set (s_participants s)) \<and>
     (\<forall>i < length (s_participants s). s_indices s (s_participants s ! i) = of_nat i)"

definition within_capacity :: "state \<Rightarrow> bool" where
  "within_capacity s \<longleftrightarrow> length (s_participants s) \<le> unat (MAX_PARTICIPANTS s)"

text \<open>The stored winner index is below the number of participants.\<close>

definition winner_in_range :: "state \<Rightarrow> bool" where
  "winner_in_range s \<longleftrightarrow>
     (s_hasDrawn s \<longrightarrow>
        (\<exists>w. s_encryptedWinnerIndex s = TrivialEncrypt32 w \<and> unat w < length (s_participants s)))"

subsection \<open>Runs without a draw\<close>

text \<open>No transaction of the run is a draw that goes through.\<close>

fun no_draw :: "state \<Rightarrow> (evm \<times> call) list \<Rightarrow> bool" where
  "no_draw s [] = True"
| "no_draw s (tx # txs) =
     ((case snd tx of
         DrawWinner \<Rightarrow> isl (drawWinner (fst tx) s)
       | Register x p \<Rightarrow> True) \<and>
      no_draw (transact s tx) txs)"

subsection \<open>The access-control list\<close>

text \<open>
  The grants the contract makes to an account other than itself: on an input, on the
  encryption of false to a participant, on an encrypted winner index, and on the encrypted
  comparison with a position to the participant at that position. The win status of the
  participant at position \<open>i\<close> is the encryption of false or a comparison with \<open>i\<close>.
\<close>

fun grant_shape :: "address list \<Rightarrow> handle \<Rightarrow> address \<Rightarrow> bool" where
  "grant_shape ps (VerifiedInput x) a = True"
| "grant_shape ps (TrivialEncryptBool b) a = (\<not> b \<and> a \<in> set ps)"
| "grant_shape ps (TrivialEncrypt32 w) a = True"
| "grant_shape ps (FheEq (TrivialEncrypt32 w) (TrivialEncrypt32 k)) a =
     (unat k < length ps \<and> a = ps ! unat k)"
| "grant_shape ps _ a = False"

fun status_shape :: "nat \<Rightarrow> handle \<Rightarrow> bool" where
  "status_shape i (TrivialEncryptBool b) = (\<not> b)"
| "status_shape i (FheEq (TrivialEncrypt32 w) (TrivialEncrypt32 k)) = (unat k = i)"
| "status_shape i _ = False"

definition acl_inv :: "state \<Rightarrow> bool" where
  "acl_inv s \<longleftrightarrow>
     (s_hasDrawn s \<longrightarrow> (\<exists>w. s_encryptedWinnerIndex s = TrivialEncrypt32 w)) \<and>
     (\<forall>h a. (h, a) \<in> acl s \<longrightarrow> a = this_address s \<or> grant_shape (s_participants s) h a) \<and>
     (\<forall>i < length (s_participants s). status_shape i (s_winStatus s (s_participants s ! i)))"

text \<open>
  Every participant and the contract hold a grant on the win status of that participant
  (\<open>own_result_granted\<close>). Who else holds one: nobody (\<open>own_result_only\<close>); or, when that
  win status is the encryption of false, another participant (\<open>drawn_result_private\<close>).
\<close>

definition own_result_granted :: "state \<Rightarrow> bool" where
  "own_result_granted s \<longleftrightarrow>
     (\<forall>p. isRegistered s p \<longrightarrow>
        (s_winStatus s p, p) \<in> acl s \<and> (s_winStatus s p, this_address s) \<in> acl s)"

definition own_result_only :: "state \<Rightarrow> bool" where
  "own_result_only s \<longleftrightarrow>
     (\<forall>p a. isRegistered s p \<and> (s_winStatus s p, a) \<in> acl s \<longrightarrow>
        a = this_address s \<or> a = p)"

definition drawn_result_private :: "state \<Rightarrow> bool" where
  "drawn_result_private s \<longleftrightarrow>
     (\<forall>p a. isRegistered s p \<and> (s_winStatus s p, a) \<in> acl s \<longrightarrow>
        a = this_address s \<or> a = p \<or>
        (s_winStatus s p = FHE_asEbool False \<and> isRegistered s a))"

section \<open>Example inputs\<close>

subsection \<open>An example run\<close>

text \<open>
  A call context for the examples: caller and block number are given, the block hashes,
  the beacon value and the timestamp are fixed functions of them, the sum of the hashed
  words stands in for \<^verbatim>\<open>keccak256\<close>, an input is accepted when its proof is not
  empty, and the transaction pays for 200 passes of the loop.
\<close>

definition example_evm :: "address \<Rightarrow> uint256 \<Rightarrow> evm" where
  "example_evm sender number =
     \<lparr>msg_sender = sender,
      block_number = number,
      blockhash = (\<lambda>n. 3 * n + 1),
      block_prevrandao = 7,
      block_timestamp = 12 * number,
      keccak256 = sum_list,
      verifyCiphertext = (\<lambda>h a p. p \<noteq> []),
      gas_passes = 200\<rparr>"

text \<open>A fresh deployment by account 1 at address 99, for at most two participants.\<close>

definition example_deployed :: state where
  "example_deployed = constructor 1 99 2"

text \<open>Account 2 registers in block 1 on the fresh deployment.\<close>

definition example_registered :: state where
  "example_registered = transact example_deployed (example_evm 2 1, Register 42 [1])"

text \<open>
  Then the administrator draws in block 2, account 3 registers in block 3, and the
  administrator draws again in block 4.
\<close>

definition example_drawn :: state where
  "example_drawn = transact example_registered (example_evm 1 2, DrawWinner)"

definition example_late :: state where
  "example_late = transact example_drawn (example_evm 3 3, Register 43 [1])"

definition example_redrawn :: state where
  "example_redrawn = transact example_late (example_evm 1 4, DrawWinner)"

subsection \<open>A crowded registry\<close>

text \<open>
  A deployment by account 1 with a capacity of \<open>2\<^sup>3\<^sup>4\<close>, on which the accounts
  \<open>0, 1, 2, \<dots>\<close> register in this order, each in a transaction of its own, and the
  administrator draws once, right after account 0 has registered. \<open>crowded n\<close> is the
  state after the first \<open>n\<close> registrations.
\<close>

definition first_addresses :: "nat \<Rightarrow> address list" where
  "first_addresses n = map of_nat [0..<n]"

definition join :: "nat \<Rightarrow> evm \<times> call" where
  "join i = (example_evm (of_nat i) 1, Register (of_nat i) [1])"

definition crowd :: "nat \<Rightarrow> (evm \<times> call) list" where
  "crowd n = join 0 # (example_evm 1 2, DrawWinner) # map join [1..<n]"

definition crowded :: "nat \<Rightarrow> state" where
  "crowded n = run (constructor 1 (2 ^ 100) (2 ^ 34)) (crowd n)"

section \<open>Basic facts\<close>

subsection \<open>What the library calls and the loop body change\<close>

lemma FHE_allow_fields [simp]:
  "ADMIN_ADDRESS (FHE_allow h a s) = ADMIN_ADDRESS s"
  "MAX_PARTICIPANTS (FHE_allow h a s) = MAX_PARTICIPANTS s"
  "this_address (FHE_allow h a s) = this_address s"
  "s_participants (FHE_allow h a s) = s_participants s"
  "s_registered (FHE_allow h a s) = s_registered s"
  "s_indices (FHE_allow h a s) = s_indices s"
  "s_encryptedIds (FHE_allow h a s) = s_encryptedIds s"
  "s_winStatus (FHE_allow h a s) = s_winStatus s"
  "s_encryptedWinnerIndex (FHE_allow h a s) = s_encryptedWinnerIndex s"
  "s_hasDrawn (FHE_allow h a s) = s_hasDrawn s"
  "s_lastDrawTimestamp (FHE_allow h a s) = s_lastDrawTimestamp s"
  "logs (FHE_allow h a s) = logs s"
  "acl (FHE_allow h a s) = insert (h, a) (acl s)"
  by (simp_all add: FHE_allow_def)

lemma FHE_allowThis_fields [simp]:
  "ADMIN_ADDRESS (FHE_allowThis h s) = ADMIN_ADDRESS s"
  "MAX_PARTICIPANTS (FHE_allowThis h s) = MAX_PARTICIPANTS s"
  "this_address (FHE_allowThis h s) = this_address s"
  "s_participants (FHE_allowThis h s) = s_participants s"
  "s_registered (FHE_allowThis h s) = s_registered s"
  "s_indices (FHE_allowThis h s) = s_indices s"
  "s_encryptedIds (FHE_allowThis h s) = s_encryptedIds s"
  "s_winStatus (FHE_allowThis h s) = s_winStatus s"
  "s_encryptedWinnerIndex (FHE_allowThis h s) = s_encryptedWinnerIndex s"
  "s_hasDrawn (FHE_allowThis h s) = s_hasDrawn s"
  "s_lastDrawTimestamp (FHE_allowThis h s) = s_lastDrawTimestamp s"
  "logs (FHE_allowThis h s) = logs s"
  "acl (FHE_allowThis h s) = insert (h, this_address s) (acl s)"
  by (simp_all add: FHE_allowThis_def)

lemma emit_fields [simp]:
  "ADMIN_ADDRESS (emit ev s) = ADMIN_ADDRESS s"
  "MAX_PARTICIPANTS (emit ev s) = MAX_PARTICIPANTS s"
  "this_address (emit ev s) = this_address s"
  "s_participants (emit ev s) = s_participants s"
  "s_registered (emit ev s) = s_registered s"
  "s_indices (emit ev s) = s_indices s"
  "s_encryptedIds (emit ev s) = s_encryptedIds s"
  "s_winStatus (emit ev s) = s_winStatus s"
  "s_encryptedWinnerIndex (emit ev s) = s_encryptedWinnerIndex s"
  "s_hasDrawn (emit ev s) = s_hasDrawn s"
  "s_lastDrawTimestamp (emit ev s) = s_lastDrawTimestamp s"
  "acl (emit ev s) = acl s"
  "logs (emit ev s) = logs s @ [ev]"
  by (simp_all add: emit_def)

lemma draw_body_fields [simp]:
  "ADMIN_ADDRESS (draw_body i s) = ADMIN_ADDRESS s"
  "MAX_PARTICIPANTS (draw_body i s) = MAX_PARTICIPANTS s"
  "this_address (draw_body i s) = this_address s"
  "s_participants (draw_body i s) = s_participants s"
  "s_registered (draw_body i s) = s_registered s"
  "s_indices (draw_body i s) = s_indices s"
  "s_encryptedIds (draw_body i s) = s_encryptedIds s"
  "s_encryptedWinnerIndex (draw_body i s) = s_encryptedWinnerIndex s"
  "s_hasDrawn (draw_body i s) = s_hasDrawn s"
  "s_lastDrawTimestamp (draw_body i s) = s_lastDrawTimestamp s"
  "logs (draw_body i s) = logs s"
  by (simp_all add: draw_body_def Let_def)

lemma draw_body_winStatus:
  "s_winStatus (draw_body i s) =
     (s_winStatus s)(s_participants s ! i :=
        FheEq (s_encryptedWinnerIndex s) (TrivialEncrypt32 (of_nat i)))"
  by (simp add: draw_body_def Let_def FHE_eq_def FHE_asEuint32_def)

lemma draw_body_acl:
  "acl (draw_body i s) =
     acl s \<union>
       {(FheEq (s_encryptedWinnerIndex s) (TrivialEncrypt32 (of_nat i)), this_address s),
        (FheEq (s_encryptedWinnerIndex s) (TrivialEncrypt32 (of_nat i)), s_participants s ! i),
        (s_encryptedWinnerIndex s, s_participants s ! i)}"
  by (auto simp add: draw_body_def Let_def FHE_eq_def FHE_asEuint32_def)

lemma draw_loop_rule:
  assumes "count \<le> length (s_participants s)" and "i \<le> count" and "P i s"
    and step: "\<And>j t. i \<le> j \<Longrightarrow> j < count \<Longrightarrow> P j t \<Longrightarrow>
                 s_participants t = s_participants s \<Longrightarrow> P (Suc j) (draw_body j t)"
    and paid: "count \<le> paid"
  shows "\<exists>s'. draw_loop paid i count s = Inr s' \<and> P count s' \<and>
              s_participants s' = s_participants s"
  using assms
proof (induction paid i count s rule: draw_loop.induct)
  case (1 paid i count s)
  show ?case
  proof (cases "i < count")
    case False
    with "1.prems" show ?thesis by (simp add: draw_loop.simps)
  next
    case True
    then have inr: "i < length (s_participants s)" using "1.prems"(1) by simp
    have pd: "i < paid" using True "1.prems"(5) by simp
    have "\<exists>s'. draw_loop paid (i + 1) count (draw_body i s) = Inr s' \<and> P count s' \<and>
            s_participants s' = s_participants (draw_body i s)"
    proof (rule "1.IH" [OF True pd inr])
      show "count \<le> length (s_participants (draw_body i s))" using "1.prems"(1) by simp
      show "i + 1 \<le> count" using True by simp
      show "P (i + 1) (draw_body i s)" using "1.prems"(4) [of i s] "1.prems"(3) True by simp
      show "count \<le> paid" by (rule "1.prems"(5))
      fix j t
      assume "i + 1 \<le> j" "j < count" "P j t" "s_participants t = s_participants (draw_body i s)"
      then show "P (Suc j) (draw_body j t)" using "1.prems"(4) [of j t] by simp
    qed
    then show ?thesis using True inr pd by (subst draw_loop.simps) simp
  qed
qed

subsection \<open>The outcomes of register\<close>

lemma register_Inr_guard:
  "(\<exists>s'. register e x p s = Inr s') \<longleftrightarrow>
     \<not> s_registered s (msg_sender e) \<and>
     length (s_participants s) < unat (MAX_PARTICIPANTS s) \<and>
     verifyCiphertext e x (msg_sender e) p"
  by (simp add: register_def FHE_fromExternal_def Let_def cong: if_cong)

lemma register_Inl_iff:
  "register e x p s = Inl err \<longleftrightarrow>
     (if s_registered s (msg_sender e) then err = AlreadyRegistered
      else if unat (MAX_PARTICIPANTS s) \<le> length (s_participants s)
      then err = Error ''Maximum participants reached''
      else \<not> verifyCiphertext e x (msg_sender e) p \<and> err = InvalidInputProof)"
  by (auto simp add: register_def FHE_fromExternal_def Let_def cong: if_cong)

lemma register_Inr_fields:
  assumes "register e x p s = Inr s'"
  shows "ADMIN_ADDRESS s' = ADMIN_ADDRESS s"
    and "MAX_PARTICIPANTS s' = MAX_PARTICIPANTS s"
    and "this_address s' = this_address s"
    and "s_participants s' = s_participants s @ [msg_sender e]"
    and "s_registered s' = (s_registered s)(msg_sender e := True)"
    and "s_indices s' = (s_indices s)(msg_sender e := of_nat (length (s_participants s)))"
    and "s_encryptedIds s' = (s_encryptedIds s)(msg_sender e := VerifiedInput x)"
    and "s_winStatus s' = (s_winStatus s)(msg_sender e := TrivialEncryptBool False)"
    and "s_encryptedWinnerIndex s' = s_encryptedWinnerIndex s"
    and "s_hasDrawn s' = s_hasDrawn s"
    and "s_lastDrawTimestamp s' = s_lastDrawTimestamp s"
    and "acl s' = acl s \<union>
           {(VerifiedInput x, this_address s), (VerifiedInput x, msg_sender e),
            (TrivialEncryptBool False, this_address s),
            (TrivialEncryptBool False, msg_sender e)} \<union>
           (if s_hasDrawn s then {(s_encryptedWinnerIndex s, msg_sender e)} else {})"
    and "logs s' = logs s @
           [ParticipantRegistered (msg_sender e) (of_nat (length (s_participants s)))]"
proof -
  have g: "\<not> s_registered s (msg_sender e)"
    "\<not> unat (MAX_PARTICIPANTS s) \<le> length (s_participants s)"
    "verifyCiphertext e x (msg_sender e) p"
    using register_Inr_guard [of e x p s] assms by auto
  have eq: "Inr s' = register e x p s" using assms by simp
  note defs = register_def FHE_fromExternal_def FHE_asEbool_def Let_def
  show "ADMIN_ADDRESS s' = ADMIN_ADDRESS s" using eq g by (simp add: defs cong: if_cong)
  show "MAX_PARTICIPANTS s' = MAX_PARTICIPANTS s" using eq g by (simp add: defs cong: if_cong)
  show "this_address s' = this_address s" using eq g by (simp add: defs cong: if_cong)
  show "s_participants s' = s_participants s @ [msg_sender e]" using eq g by (simp add: defs cong: if_cong)
  show "s_registered s' = (s_registered s)(msg_sender e := True)" using eq g by (simp add: defs cong: if_cong)
  show "s_indices s' = (s_indices s)(msg_sender e := of_nat (length (s_participants s)))"
    using eq g by (simp add: defs cong: if_cong)
  show "s_encryptedIds s' = (s_encryptedIds s)(msg_sender e := VerifiedInput x)"
    using eq g by (simp add: defs cong: if_cong)
  show "s_winStatus s' = (s_winStatus s)(msg_sender e := TrivialEncryptBool False)"
    using eq g by (simp add: defs cong: if_cong)
  show "s_encryptedWinnerIndex s' = s_encryptedWinnerIndex s" using eq g by (simp add: defs cong: if_cong)
  show "s_hasDrawn s' = s_hasDrawn s" using eq g by (simp add: defs cong: if_cong)
  show "s_lastDrawTimestamp s' = s_lastDrawTimestamp s" using eq g by (simp add: defs cong: if_cong)
  show "acl s' = acl s \<union>
           {(VerifiedInput x, this_address s), (VerifiedInput x, msg_sender e),
            (TrivialEncryptBool False, this_address s),
            (TrivialEncryptBool False, msg_sender e)} \<union>
           (if s_hasDrawn s then {(s_encryptedWinnerIndex s, msg_sender e)} else {})"
    using eq g by (auto simp add: defs cong: if_cong)
  show "logs s' = logs s @
           [ParticipantRegistered (msg_sender e) (of_nat (length (s_participants s)))]"
    using eq g by (simp add: defs cong: if_cong)
qed

subsection \<open>The loop of a draw\<close>

lemma drawn_grants_Suc:
  "drawn_grants s (Suc j) = drawn_grants s j \<union>
     {(FheEq (s_encryptedWinnerIndex s) (TrivialEncrypt32 (of_nat j)), this_address s),
      (FheEq (s_encryptedWinnerIndex s) (TrivialEncrypt32 (of_nat j)), s_participants s ! j),
      (s_encryptedWinnerIndex s, s_participants s ! j)}"
  by (simp add: drawn_grants_def lessThan_Suc Un_commute)

lemma loop_inv_step:
  assumes d: "distinct (s_participants s)" and j: "j < length (s_participants s)"
    and inv: "loop_inv s j t"
  shows "loop_inv s (Suc j) (draw_body j t)"
proof -
  have ps: "s_participants t = s_participants s" using inv by (simp add: loop_inv_def)
  have w: "s_encryptedWinnerIndex t = s_encryptedWinnerIndex s" using inv by (simp add: loop_inv_def)
  have th: "this_address t = this_address s" using inv by (simp add: loop_inv_def)
  have a: "acl (draw_body j t) = acl s \<union> drawn_grants s (Suc j)"
    using inv by (simp add: draw_body_acl drawn_grants_Suc ps w th loop_inv_def Un_assoc)
  have ws1: "\<forall>k < length (s_participants s).
        s_winStatus (draw_body j t) (s_participants s ! k) =
          (if k < Suc j then FheEq (s_encryptedWinnerIndex s) (TrivialEncrypt32 (of_nat k))
           else s_winStatus s (s_participants s ! k))"
  proof (intro allI impI)
    fix k assume k: "k < length (s_participants s)"
    show "s_winStatus (draw_body j t) (s_participants s ! k) =
          (if k < Suc j then FheEq (s_encryptedWinnerIndex s) (TrivialEncrypt32 (of_nat k))
           else s_winStatus s (s_participants s ! k))"
    proof (cases "k = j")
      case True
      then show ?thesis by (simp add: draw_body_winStatus ps w)
    next
      case False
      then have "s_participants s ! k \<noteq> s_participants s ! j"
        using d j k by (simp add: nth_eq_iff_index_eq)
      moreover have "s_winStatus t (s_participants s ! k) =
          (if k < j then FheEq (s_encryptedWinnerIndex s) (TrivialEncrypt32 (of_nat k))
           else s_winStatus s (s_participants s ! k))"
        using inv k by (simp add: loop_inv_def)
      ultimately show ?thesis using False by (simp add: draw_body_winStatus ps w less_Suc_eq)
    qed
  qed
  have ws2: "\<forall>a. a \<notin> set (s_participants s) \<longrightarrow> s_winStatus (draw_body j t) a = s_winStatus s a"
  proof (intro allI impI)
    fix a assume a: "a \<notin> set (s_participants s)"
    then have "a \<noteq> s_participants s ! j" using j by auto
    moreover have "s_winStatus t a = s_winStatus s a" using inv a by (simp add: loop_inv_def)
    ultimately show "s_winStatus (draw_body j t) a = s_winStatus s a"
      by (simp add: draw_body_winStatus ps)
  qed
  show ?thesis
    unfolding loop_inv_def
    using inv a ws1 ws2 by (simp add: loop_inv_def)
qed

lemma draw_loop_all:
  assumes d: "distinct (s_participants s)" and paid: "length (s_participants s) \<le> paid"
  shows "\<exists>s'. draw_loop paid 0 (length (s_participants s)) s = Inr s' \<and>
               loop_inv s (length (s_participants s)) s'"
proof -
  have "\<exists>s'. draw_loop paid 0 (length (s_participants s)) s = Inr s' \<and>
          loop_inv s (length (s_participants s)) s' \<and> s_participants s' = s_participants s"
  proof (rule draw_loop_rule [where P = "loop_inv s"])
    show "loop_inv s 0 s" by (simp add: loop_inv_def drawn_grants_def)
    fix j t
    assume "j < length (s_participants s)" "loop_inv s j t"
    then show "loop_inv s (Suc j) (draw_body j t)" using d by (rule loop_inv_step [rotated])
  qed (simp_all add: paid)
  then show ?thesis by blast
qed

subsection \<open>The outcomes of drawWinner\<close>

lemma draw_loop_total:
  assumes "count \<le> length (s_participants s)" and "count \<le> paid"
  shows "\<exists>s'. draw_loop paid i count s = Inr s'"
proof (cases "i \<le> count")
  case True
  with assms draw_loop_rule [where P = "\<lambda>_ _. True", of count s i paid] show ?thesis
    by blast
next
  case False
  then show ?thesis by (simp add: draw_loop.simps)
qed

lemma draw_loop_OutOfGas:
  assumes "paid < count" and "i \<le> paid" and "count \<le> length (s_participants s)"
  shows "draw_loop paid i count s = Inl OutOfGas"
  using assms
proof (induction paid i count s rule: draw_loop.induct)
  case (1 paid i count s)
  show ?case
  proof (cases "i < paid")
    case True
    have c: "i < count" using True "1.prems" by simp
    have l: "i < length (s_participants s)" using c "1.prems" by simp
    have "draw_loop paid (i + 1) count (draw_body i s) = Inl OutOfGas"
      using "1.IH" [OF c True l] "1.prems" True by simp
    then show ?thesis using c True l by (subst draw_loop.simps) simp
  next
    case False
    then show ?thesis using "1.prems" by (subst draw_loop.simps) simp
  qed
qed

lemma drawWinner_Inl_iff:
  "drawWinner e s = Inl err \<longleftrightarrow>
     (if msg_sender e \<noteq> ADMIN_ADDRESS s then err = NotAuthorized
      else if s_participants s = [] then err = NoParticipants
      else if block_number e = 0 then err = Panic 0x11
      else unat (gas_passes e) < length (s_participants s) \<and> err = OutOfGas)"
proof -
  let ?s4 = "FHE_allowThis (FHE_asEuint32 (winnerIndex e s))
               (s\<lparr>s_encryptedWinnerIndex := FHE_asEuint32 (winnerIndex e s),
                  s_lastDrawTimestamp := block_timestamp e, s_hasDrawn := True\<rparr>)"
  show ?thesis
  proof (cases "length (s_participants s) \<le> unat (gas_passes e)")
    case True
    obtain s5 where
      "draw_loop (unat (gas_passes e)) 0 (length (s_participants s)) ?s4 = Inr s5"
      using draw_loop_total [of "length (s_participants s)" ?s4 "unat (gas_passes e)" 0] True
      by auto
    then show ?thesis using True
      by (auto simp add: drawWinner_def Let_def cong: if_cong)
  next
    case False
    have "draw_loop (unat (gas_passes e)) 0 (length (s_participants s)) ?s4 = Inl OutOfGas"
      using draw_loop_OutOfGas [of "unat (gas_passes e)" "length (s_participants s)" 0 ?s4]
        False by simp
    then show ?thesis using False
      by (auto simp add: drawWinner_def Let_def cong: if_cong)
  qed
qed

lemma drawWinner_Inr_iff:
  "(\<exists>s'. drawWinner e s = Inr s') \<longleftrightarrow>
     msg_sender e = ADMIN_ADDRESS s \<and> s_participants s \<noteq> [] \<and> block_number e \<noteq> 0 \<and>
     length (s_participants s) \<le> unat (gas_passes e)"
proof
  assume "\<exists>s'. drawWinner e s = Inr s'"
  then obtain s' where r: "drawWinner e s = Inr s'" ..
  have a: "msg_sender e = ADMIN_ADDRESS s"
  proof (rule ccontr)
    assume "msg_sender e \<noteq> ADMIN_ADDRESS s"
    then have "drawWinner e s = Inl NotAuthorized" by (simp add: drawWinner_Inl_iff)
    with r show False by simp
  qed
  have n: "s_participants s \<noteq> []"
  proof
    assume "s_participants s = []"
    then have "drawWinner e s = Inl NoParticipants" using a by (simp add: drawWinner_Inl_iff)
    with r show False by simp
  qed
  have b: "block_number e \<noteq> 0"
  proof
    assume "block_number e = 0"
    then have "drawWinner e s = Inl (Panic 0x11)" using a n by (simp add: drawWinner_Inl_iff)
    with r show False by simp
  qed
  have "length (s_participants s) \<le> unat (gas_passes e)"
  proof (rule ccontr)
    assume "\<not> length (s_participants s) \<le> unat (gas_passes e)"
    then have "drawWinner e s = Inl OutOfGas" using a n b by (simp add: drawWinner_Inl_iff)
    with r show False by simp
  qed
  with a n b show "msg_sender e = ADMIN_ADDRESS s \<and> s_participants s \<noteq> [] \<and>
      block_number e \<noteq> 0 \<and> length (s_participants s) \<le> unat (gas_passes e)"
    by simp
next
  assume g: "msg_sender e = ADMIN_ADDRESS s \<and> s_participants s \<noteq> [] \<and>
      block_number e \<noteq> 0 \<and> length (s_participants s) \<le> unat (gas_passes e)"
  show "\<exists>s'. drawWinner e s = Inr s'"
  proof (cases "drawWinner e s")
    case (Inl err)
    then have False using g by (simp add: drawWinner_Inl_iff)
    then show ?thesis ..
  next
    case (Inr s')
    then show ?thesis by blast
  qed
qed

lemma drawWinner_success:
  assumes a: "msg_sender e = ADMIN_ADDRESS s" and n: "s_participants s \<noteq> []"
    and b: "block_number e \<noteq> 0" and d: "distinct (s_participants s)"
    and paid: "length (s_participants s) \<le> unat (gas_passes e)"
  shows "\<exists>s'. drawWinner e s = Inr s' \<and> draw_post e s s'"
proof -
  let ?W = "TrivialEncrypt32 (winnerIndex e s)"
  let ?s4 = "FHE_allowThis (FHE_asEuint32 (winnerIndex e s))
               (s\<lparr>s_encryptedWinnerIndex := FHE_asEuint32 (winnerIndex e s),
                  s_lastDrawTimestamp := block_timestamp e, s_hasDrawn := True\<rparr>)"
  have ps4: "s_participants ?s4 = s_participants s" by simp
  have "distinct (s_participants ?s4)" using d by simp
  moreover have "length (s_participants ?s4) \<le> unat (gas_passes e)" using paid by simp
  ultimately obtain s5 where
    l: "draw_loop (unat (gas_passes e)) 0 (length (s_participants s)) ?s4 = Inr s5"
    and inv: "loop_inv ?s4 (length (s_participants s)) s5"
    using draw_loop_all [of ?s4 "unat (gas_passes e)"] by (auto simp add: ps4)
  let ?s' = "emit (WinnerDrawn (commitment e s) (of_nat (length (s_participants s)))) s5"
  have r: "drawWinner e s = Inr ?s'"
    using a n b l by (simp add: drawWinner_def Let_def cong: if_cong)
  have g: "drawn_grants ?s4 (length (s_participants s)) =
       (\<Union>k\<in>{..<length (s_participants s)}.
          {(FheEq ?W (TrivialEncrypt32 (of_nat k)), this_address s),
           (FheEq ?W (TrivialEncrypt32 (of_nat k)), s_participants s ! k),
           (?W, s_participants s ! k)})"
    by (simp add: drawn_grants_def FHE_asEuint32_def)
  have "draw_post e s ?s'"
    unfolding draw_post_def
    using inv unfolding loop_inv_def g
    by (simp add: FHE_asEuint32_def)
  with r show ?thesis by blast
qed

subsection \<open>What a transaction keeps\<close>

lemma draw_loop_frame:
  assumes "draw_loop paid i count s = Inr s'"
  shows "ADMIN_ADDRESS s' = ADMIN_ADDRESS s \<and> MAX_PARTICIPANTS s' = MAX_PARTICIPANTS s \<and>
         this_address s' = this_address s \<and> s_participants s' = s_participants s \<and>
         s_registered s' = s_registered s \<and> s_indices s' = s_indices s \<and>
         s_encryptedIds s' = s_encryptedIds s \<and>
         s_encryptedWinnerIndex s' = s_encryptedWinnerIndex s \<and>
         s_hasDrawn s' = s_hasDrawn s \<and> s_lastDrawTimestamp s' = s_lastDrawTimestamp s \<and>
         logs s' = logs s"
  using assms
proof (induction paid i count s rule: draw_loop.induct)
  case (1 paid i count s)
  show ?case
  proof (cases "i < count \<and> i < paid \<and> i < length (s_participants s)")
    case True
    then have "draw_loop paid (i + 1) count (draw_body i s) = Inr s'"
      using "1.prems" by (subst (asm) draw_loop.simps) simp
    with "1.IH" True show ?thesis by simp
  next
    case False
    then show ?thesis using "1.prems" by (subst (asm) draw_loop.simps) (auto split: if_splits)
  qed
qed

lemma drawWinner_Inr_fields:
  assumes "drawWinner e s = Inr s'"
  shows "msg_sender e = ADMIN_ADDRESS s" and "s_participants s \<noteq> []"
    and "ADMIN_ADDRESS s' = ADMIN_ADDRESS s" and "MAX_PARTICIPANTS s' = MAX_PARTICIPANTS s"
    and "this_address s' = this_address s" and "s_participants s' = s_participants s"
    and "s_registered s' = s_registered s" and "s_indices s' = s_indices s"
    and "s_encryptedIds s' = s_encryptedIds s"
    and "s_encryptedWinnerIndex s' = TrivialEncrypt32 (winnerIndex e s)"
    and "s_hasDrawn s'" and "s_lastDrawTimestamp s' = block_timestamp e"
    and "logs s' = logs s @ [WinnerDrawn (commitment e s) (of_nat (length (s_participants s)))]"
    and "block_number e \<noteq> 0" and "length (s_participants s) \<le> unat (gas_passes e)"
proof -
  let ?s4 = "FHE_allowThis (FHE_asEuint32 (winnerIndex e s))
               (s\<lparr>s_encryptedWinnerIndex := FHE_asEuint32 (winnerIndex e s),
                  s_lastDrawTimestamp := block_timestamp e, s_hasDrawn := True\<rparr>)"
  have g: "msg_sender e = ADMIN_ADDRESS s \<and> s_participants s \<noteq> [] \<and> block_number e \<noteq> 0 \<and>
      length (s_participants s) \<le> unat (gas_passes e)"
    using assms drawWinner_Inr_iff [of e s] by blast
  then obtain s5 where
    l: "draw_loop (unat (gas_passes e)) 0 (length (s_participants s)) ?s4 = Inr s5"
    and s': "s' = emit (WinnerDrawn (commitment e s) (of_nat (length (s_participants s)))) s5"
    using assms by (auto simp add: drawWinner_def Let_def split: sum.splits cong: if_cong)
  note f = draw_loop_frame [OF l]
  show "msg_sender e = ADMIN_ADDRESS s" "s_participants s \<noteq> []" using g by simp_all
  show "block_number e \<noteq> 0" "length (s_participants s) \<le> unat (gas_passes e)"
    using g by simp_all
  show "ADMIN_ADDRESS s' = ADMIN_ADDRESS s" using f by (simp add: s')
  show "MAX_PARTICIPANTS s' = MAX_PARTICIPANTS s" using f by (simp add: s')
  show "this_address s' = this_address s" using f by (simp add: s')
  show "s_participants s' = s_participants s" using f by (simp add: s')
  show "s_registered s' = s_registered s" using f by (simp add: s')
  show "s_indices s' = s_indices s" using f by (simp add: s')
  show "s_encryptedIds s' = s_encryptedIds s" using f by (simp add: s')
  show "s_encryptedWinnerIndex s' = TrivialEncrypt32 (winnerIndex e s)"
    using f by (simp add: s' FHE_asEuint32_def)
  show "s_hasDrawn s'" using f by (simp add: s')
  show "s_lastDrawTimestamp s' = block_timestamp e" using f by (simp add: s')
  show "logs s' = logs s @ [WinnerDrawn (commitment e s) (of_nat (length (s_participants s)))]"
    using f by (simp add: s')
qed

lemma draw_loop_Inr_fold:
  assumes "draw_loop paid i count s = Inr s'"
  shows "s' = fold draw_body [i..<count] s"
  using assms
proof (induction paid i count s rule: draw_loop.induct)
  case (1 paid i count s)
  show ?case
  proof (cases "i < count")
    case True
    then have g: "i < paid \<and> i < length (s_participants s)"
      using "1.prems" by (subst (asm) draw_loop.simps) (simp split: if_splits)
    then have "draw_loop paid (i + 1) count (draw_body i s) = Inr s'"
      using "1.prems" True by (subst (asm) draw_loop.simps) simp
    then have "s' = fold draw_body [i + 1..<count] (draw_body i s)"
      using "1.IH" True g by simp
    then show ?thesis using True by (simp add: upt_conv_Cons)
  next
    case False
    then show ?thesis using "1.prems" by (subst (asm) draw_loop.simps) simp
  qed
qed

lemma drawWinner_Inr_eq:
  assumes "drawWinner e s = Inr s'"
  shows "s' = emit (WinnerDrawn (commitment e s) (of_nat (length (s_participants s))))
           (fold draw_body [0..<length (s_participants s)]
              (FHE_allowThis (FHE_asEuint32 (winnerIndex e s))
                 (s\<lparr>s_encryptedWinnerIndex := FHE_asEuint32 (winnerIndex e s),
                    s_lastDrawTimestamp := block_timestamp e, s_hasDrawn := True\<rparr>)))"
proof -
  let ?s4 = "FHE_allowThis (FHE_asEuint32 (winnerIndex e s))
               (s\<lparr>s_encryptedWinnerIndex := FHE_asEuint32 (winnerIndex e s),
                  s_lastDrawTimestamp := block_timestamp e, s_hasDrawn := True\<rparr>)"
  have g: "msg_sender e = ADMIN_ADDRESS s \<and> s_participants s \<noteq> [] \<and> block_number e \<noteq> 0"
    using assms drawWinner_Inr_iff [of e s] by blast
  then obtain s5 where
    l: "draw_loop (unat (gas_passes e)) 0 (length (s_participants s)) ?s4 = Inr s5"
    and s': "s' = emit (WinnerDrawn (commitment e s) (of_nat (length (s_participants s)))) s5"
    using assms by (auto simp add: drawWinner_def Let_def split: sum.splits cong: if_cong)
  show ?thesis unfolding s' draw_loop_Inr_fold [OF l] by (rule refl)
qed

lemma drawWinner_Inr_post:
  assumes "drawWinner e s = Inr s'" and "distinct (s_participants s)"
  shows "draw_post e s s'"
proof -
  note f = drawWinner_Inr_fields [OF assms(1)]
  obtain t where t: "drawWinner e s = Inr t" "draw_post e s t"
    using drawWinner_success [OF f(1,2,14) assms(2) f(15)] by blast
  then have "t = s'" using assms(1) by simp
  then show ?thesis using t(2) by simp
qed

lemma transact_cases:
  obtains (reverted) err where "exec (fst tx) (snd tx) s = Inl err" and "transact s tx = s"
  | (registered) x p where "snd tx = Register x p"
      and "register (fst tx) x p s = Inr (transact s tx)"
  | (drawn) "snd tx = DrawWinner" and "drawWinner (fst tx) s = Inr (transact s tx)"
proof (cases "exec (fst tx) (snd tx) s")
  case (Inl err)
  then show ?thesis using reverted by (simp add: transact_def)
next
  case (Inr s')
  then have t: "transact s tx = s'" by (simp add: transact_def)
  show ?thesis
  proof (cases "snd tx")
    case (Register x p)
    then show ?thesis using Inr t registered by simp
  next
    case DrawWinner
    then show ?thesis using Inr t drawn by simp
  qed
qed

lemma transact_Register_Inr:
  "register e x p s = Inr s' \<Longrightarrow> transact s (e, Register x p) = s'"
  by (simp add: transact_def)

lemma transact_DrawWinner_Inr:
  "drawWinner e s = Inr s' \<Longrightarrow> transact s (e, DrawWinner) = s'"
  by (simp add: transact_def)

lemma transact_immutables:
  "ADMIN_ADDRESS (transact s tx) = ADMIN_ADDRESS s \<and>
   MAX_PARTICIPANTS (transact s tx) = MAX_PARTICIPANTS s \<and>
   this_address (transact s tx) = this_address s"
proof (cases rule: transact_cases [of tx s])
  case (reverted err)
  then show ?thesis by simp
next
  case (registered x p)
  then show ?thesis using register_Inr_fields(1-3) [OF registered(2)] by simp
next
  case drawn
  then show ?thesis using drawWinner_Inr_fields(3-5) [OF drawn(2)] by simp
qed

lemma run_Nil [simp]: "run s [] = s"
  by (simp add: run_def)

lemma run_Cons [simp]: "run s (tx # txs) = run (transact s tx) txs"
  by (simp add: run_def)

lemma run_snoc [simp]: "run s (txs @ [tx]) = transact (run s txs) tx"
  by (simp add: run_def)

lemma run_immutables:
  "ADMIN_ADDRESS (run s txs) = ADMIN_ADDRESS s \<and>
   MAX_PARTICIPANTS (run s txs) = MAX_PARTICIPANTS s \<and>
   this_address (run s txs) = this_address s"
  by (induction txs arbitrary: s) (simp_all add: transact_immutables)

lemma transact_registered:
  assumes "s_registered s a"
  shows "s_registered (transact s tx) a"
proof (cases rule: transact_cases [of tx s])
  case (reverted err)
  then show ?thesis using assms by simp
next
  case (registered x p)
  then show ?thesis using register_Inr_fields(5) [OF registered(2)] assms by simp
next
  case drawn
  then show ?thesis using drawWinner_Inr_fields(7) [OF drawn(2)] assms by simp
qed

lemma run_registered:
  "s_registered s a \<Longrightarrow> s_registered (run s txs) a"
  by (induction txs arbitrary: s) (simp_all add: transact_registered)

lemma transact_no_draw_keeps:
  assumes r: "s_registered s a"
    and n: "case snd tx of DrawWinner \<Rightarrow> isl (drawWinner (fst tx) s) | Register x p \<Rightarrow> True"
  shows "s_winStatus (transact s tx) a = s_winStatus s a \<and>
         s_encryptedWinnerIndex (transact s tx) = s_encryptedWinnerIndex s \<and>
         acl s \<subseteq> acl (transact s tx)"
proof (cases rule: transact_cases [of tx s])
  case (reverted err)
  then show ?thesis by simp
next
  case (registered x p)
  have "\<not> s_registered s (msg_sender (fst tx))"
    using register_Inr_guard [of "fst tx" x p s] registered(2) by auto
  then have "msg_sender (fst tx) \<noteq> a" using r by auto
  then show ?thesis using register_Inr_fields(8,9,12) [OF registered(2)] by auto
next
  case drawn
  then show ?thesis using n by simp
qed

lemma run_no_draw_keeps:
  "s_registered s a \<Longrightarrow> no_draw s txs \<Longrightarrow>
     s_winStatus (run s txs) a = s_winStatus s a \<and>
     s_encryptedWinnerIndex (run s txs) = s_encryptedWinnerIndex s \<and>
     acl s \<subseteq> acl (run s txs)"
proof (induction txs arbitrary: s)
  case Nil
  then show ?case by simp
next
  case (Cons tx txs)
  have n: "case snd tx of DrawWinner \<Rightarrow> isl (drawWinner (fst tx) s) | Register x p \<Rightarrow> True"
    and rest: "no_draw (transact s tx) txs"
    using Cons.prems(2) by simp_all
  note k = transact_no_draw_keeps [OF Cons.prems(1) n]
  have "s_registered (transact s tx) a" using Cons.prems(1) by (rule transact_registered)
  from Cons.IH [OF this rest] k show ?case by auto
qed

subsection \<open>Casts to uint32 and uint256\<close>

lemma unat_of_nat_32:
  "i \<le> 2 ^ 32 \<Longrightarrow> i \<noteq> 2 ^ 32 \<Longrightarrow> unat (of_nat i :: uint32) = i"
  by (simp add: unat_of_nat)

lemma of_nat_32_eq_iff:
  assumes "i < 2 ^ 32"
  shows "w = (of_nat i :: uint32) \<longleftrightarrow> i = unat w"
proof
  assume "w = of_nat i"
  then show "i = unat w" using assms by (simp add: unat_of_nat)
next
  assume "i = unat w"
  then show "w = of_nat i" by simp
qed

lemma unat_position:
  assumes "k < length (s_participants s)"
    and "length (s_participants s) \<le> unat (gas_passes e)"
  shows "unat (of_nat k :: uint32) = k"
proof -
  have "unat (gas_passes e) < 2 ^ 32" using unsigned_less [of "gas_passes e"] by simp
  then have "k < 2 ^ 32" using assms by simp
  then show ?thesis by (simp add: unat_of_nat)
qed

lemma unat_winnerIndex:
  assumes "s_participants s \<noteq> []" and "length (s_participants s) \<le> 2 ^ 32"
  shows "unat (winnerIndex e s) = unat (randomSeed e s) mod length (s_participants s)"
    and "unat (winnerIndex e s) < length (s_participants s)"
proof -
  let ?v = "unat (randomSeed e s) mod length (s_participants s)"
  have v: "?v < length (s_participants s)" using assms(1) by simp
  then have "?v \<le> 2 ^ 32" "?v \<noteq> 2 ^ 32" using assms(2) by simp_all
  then show "unat (winnerIndex e s) = ?v"
    unfolding winnerIndex_def by (rule unat_of_nat_32)
  then show "unat (winnerIndex e s) < length (s_participants s)" using v by simp
qed

lemma unat_participantCount:
  assumes "length (s_participants s) \<le> unat (MAX_PARTICIPANTS s)"
  shows "unat (participantCount s) = length (s_participants s)"
proof -
  have "unat (MAX_PARTICIPANTS s) < 2 ^ 256" using unsigned_less [of "MAX_PARTICIPANTS s"] by simp
  then have "length (s_participants s) < 2 ^ LENGTH(256)" using assms by simp
  then show ?thesis unfolding participantCount_def by (simp add: unat_of_nat)
qed

section \<open>The invariants\<close>

subsection \<open>The registry\<close>

lemma registry_ok_constructor: "registry_ok (constructor deployer this maxP)"
  by (simp add: registry_ok_def constructor_def isRegistered_def)

lemma registry_ok_register:
  assumes ok: "registry_ok s" and r: "register e x p s = Inr s'"
  shows "registry_ok s'"
proof -
  note f = register_Inr_fields [OF r]
  have g: "\<not> s_registered s (msg_sender e)" using register_Inr_guard [of e x p s] r by auto
  have d: "distinct (s_participants s)"
    and m: "\<And>a. s_registered s a \<longleftrightarrow> a \<in> set (s_participants s)"
    and ix: "\<And>i. i < length (s_participants s) \<Longrightarrow> s_indices s (s_participants s ! i) = of_nat i"
    using ok by (simp_all add: registry_ok_def isRegistered_def)
  have new: "msg_sender e \<notin> set (s_participants s)" using g m by simp
  have "distinct (s_participants s')" using d new by (simp add: f(4))
  moreover have "\<forall>a. isRegistered s' a \<longleftrightarrow> a \<in> set (s_participants s')"
    using m by (auto simp add: isRegistered_def f(4,5))
  moreover have "\<forall>i < length (s_participants s'). s_indices s' (s_participants s' ! i) = of_nat i"
  proof (intro allI impI)
    fix i assume i: "i < length (s_participants s')"
    show "s_indices s' (s_participants s' ! i) = of_nat i"
    proof (cases "i < length (s_participants s)")
      case True
      then have "s_participants s ! i \<noteq> msg_sender e" using new nth_mem by metis
      then show ?thesis using True ix by (simp add: f(4,6) nth_append)
    next
      case False
      then have "i = length (s_participants s)" using i by (simp add: f(4))
      then show ?thesis by (simp add: f(4,6))
    qed
  qed
  ultimately show ?thesis by (simp add: registry_ok_def)
qed

lemma registry_ok_drawWinner:
  assumes ok: "registry_ok s" and r: "drawWinner e s = Inr s'"
  shows "registry_ok s'"
  using ok drawWinner_Inr_fields(6,7,8) [OF r]
  by (simp add: registry_ok_def isRegistered_def)

lemma registry_ok_transact:
  assumes "registry_ok s"
  shows "registry_ok (transact s tx)"
proof (cases rule: transact_cases [of tx s])
  case (reverted err)
  then show ?thesis using assms by simp
next
  case (registered x p)
  then show ?thesis using registry_ok_register [OF assms registered(2)] by simp
next
  case drawn
  then show ?thesis using registry_ok_drawWinner [OF assms drawn(2)] by simp
qed

lemma registry_ok_run:
  "registry_ok s \<Longrightarrow> registry_ok (run s txs)"
  by (induction txs arbitrary: s) (simp_all add: registry_ok_transact)

lemma registry_ok_consistent:
  assumes "registry_ok s" and "length (s_participants s) \<le> 2 ^ 32"
  shows "registry_consistent s"
proof -
  have "\<forall>i < length (s_participants s). unat (s_indices s (s_participants s ! i)) = i"
  proof (intro allI impI)
    fix i assume i: "i < length (s_participants s)"
    then have "s_indices s (s_participants s ! i) = of_nat i"
      using assms(1) by (simp add: registry_ok_def)
    moreover have "i \<le> 2 ^ 32" "i \<noteq> 2 ^ 32" using i assms(2) by simp_all
    ultimately show "unat (s_indices s (s_participants s ! i)) = i"
      by (simp add: unat_of_nat_32)
  qed
  then show ?thesis using assms(1) by (simp add: registry_ok_def registry_consistent_def)
qed

lemma registry_consistent_ok:
  assumes "registry_consistent s"
  shows "registry_ok s"
proof -
  have "s_indices s (s_participants s ! i) = of_nat i" if "i < length (s_participants s)" for i
  proof -
    have "unat (s_indices s (s_participants s ! i)) = i"
      using assms that by (simp add: registry_consistent_def)
    then have "(of_nat (unat (s_indices s (s_participants s ! i))) :: uint32) = of_nat i"
      by (rule arg_cong)
    then show ?thesis by simp
  qed
  then show ?thesis using assms by (simp add: registry_consistent_def registry_ok_def)
qed

subsection \<open>The capacity\<close>

lemma within_capacity_transact:
  assumes "within_capacity s"
  shows "within_capacity (transact s tx)"
proof (cases rule: transact_cases [of tx s])
  case (reverted err)
  then show ?thesis using assms by simp
next
  case (registered x p)
  have "length (s_participants s) < unat (MAX_PARTICIPANTS s)"
    using register_Inr_guard [of "fst tx" x p s] registered(2) by auto
  then show ?thesis
    using register_Inr_fields(2,4) [OF registered(2)] by (simp add: within_capacity_def)
next
  case drawn
  then show ?thesis
    using drawWinner_Inr_fields(4,6) [OF drawn(2)] assms by (simp add: within_capacity_def)
qed

lemma within_capacity_run:
  "within_capacity s \<Longrightarrow> within_capacity (run s txs)"
  by (induction txs arbitrary: s) (simp_all add: within_capacity_transact)

lemma within_capacity_constructor: "within_capacity (constructor deployer this maxP)"
  by (simp add: within_capacity_def constructor_def)

lemma participantCount_le:
  assumes "within_capacity s"
  shows "participantCount s \<le> maxParticipants s"
proof -
  have "unat (participantCount s) = length (s_participants s)"
    using assms by (simp add: unat_participantCount within_capacity_def)
  then show ?thesis using assms by (simp add: word_le_nat_alt maxParticipants_def within_capacity_def)
qed

subsection \<open>The stored winner index\<close>

lemma winner_in_range_transact:
  assumes "winner_in_range s"
  shows "winner_in_range (transact s tx)"
proof (cases rule: transact_cases [of tx s])
  case (reverted err)
  then show ?thesis using assms by simp
next
  case (registered x p)
  note f = register_Inr_fields [OF registered(2)]
  show ?thesis using assms unfolding winner_in_range_def f(4,9,10) by auto
next
  case drawn
  note f = drawWinner_Inr_fields [OF drawn(2)]
  let ?v = "unat (randomSeed (fst tx) s) mod length (s_participants s)"
  have "unat (winnerIndex (fst tx) s) \<le> ?v"
    unfolding winnerIndex_def by (simp add: unat_of_nat)
  moreover have "?v < length (s_participants s)" using f(2) by simp
  ultimately show ?thesis unfolding winner_in_range_def f(6,10) by simp
qed

lemma winner_in_range_run:
  "winner_in_range s \<Longrightarrow> winner_in_range (run s txs)"
  by (induction txs arbitrary: s) (simp_all add: winner_in_range_transact)

subsection \<open>The access-control list\<close>

lemma grant_shape_iff:
  "grant_shape ps h a \<longleftrightarrow>
     (\<exists>x. h = VerifiedInput x) \<or> (h = TrivialEncryptBool False \<and> a \<in> set ps) \<or>
     (\<exists>w. h = TrivialEncrypt32 w) \<or>
     (\<exists>w k. unat k < length ps \<and> h = FheEq (TrivialEncrypt32 w) (TrivialEncrypt32 k) \<and>
        a = ps ! unat k)"
  by (induction ps h a rule: grant_shape.induct) auto

lemma status_shape_iff:
  "status_shape i h \<longleftrightarrow>
     h = TrivialEncryptBool False \<or>
     (\<exists>w k. h = FheEq (TrivialEncrypt32 w) (TrivialEncrypt32 k) \<and> unat k = i)"
  by (induction i h rule: status_shape.induct) auto

lemma grant_shape_append:
  "grant_shape ps h a \<Longrightarrow> grant_shape (ps @ [b]) h a"
  unfolding grant_shape_iff
  by (auto simp add: nth_append)

lemma acl_inv_constructor: "acl_inv (constructor deployer this m)"
  by (simp add: acl_inv_def constructor_def)

lemma acl_inv_register:
  assumes inv: "acl_inv s" and r: "register e x p s = Inr s'"
  shows "acl_inv s'"
proof -
  note f = register_Inr_fields [OF r]
  let ?ps = "s_participants s" and ?c = "msg_sender e"
  have w: "s_hasDrawn s \<longrightarrow> (\<exists>w. s_encryptedWinnerIndex s = TrivialEncrypt32 w)"
    and g: "\<And>h a. (h, a) \<in> acl s \<Longrightarrow> a = this_address s \<or> grant_shape ?ps h a"
    and st: "\<And>i. i < length ?ps \<Longrightarrow> status_shape i (s_winStatus s (?ps ! i))"
    using inv by (auto simp add: acl_inv_def)
  have "a = this_address s' \<or> grant_shape (s_participants s') h a" if "(h, a) \<in> acl s'" for h a
  proof (cases "(h, a) \<in> acl s")
    case True
    then show ?thesis using g [of h a] by (auto simp add: f(3,4) grant_shape_append)
  next
    case False
    then have "(h, a) \<in> {(VerifiedInput x, this_address s), (VerifiedInput x, ?c),
        (TrivialEncryptBool False, this_address s), (TrivialEncryptBool False, ?c)} \<or>
        (s_hasDrawn s \<and> (h, a) = (s_encryptedWinnerIndex s, ?c))"
      using that unfolding f(12) by (auto split: if_splits)
    then show ?thesis using w by (auto simp add: f(3,4))
  qed
  moreover have "status_shape i (s_winStatus s' (s_participants s' ! i))"
    if "i < length (s_participants s')" for i
  proof (cases "i < length ?ps")
    case True
    then show ?thesis using st [of i] by (simp add: f(4,8) nth_append)
  next
    case False
    then have "i = length ?ps" using that by (simp add: f(4))
    then show ?thesis by (simp add: f(4,8))
  qed
  ultimately show ?thesis using w unfolding acl_inv_def by (simp add: f(9,10))
qed

lemma acl_inv_drawWinner:
  assumes inv: "acl_inv s" and d: "distinct (s_participants s)" and r: "drawWinner e s = Inr s'"
  shows "acl_inv s'"
proof -
  let ?ps = "s_participants s" and ?W = "TrivialEncrypt32 (winnerIndex e s)"
  note f = drawWinner_Inr_fields [OF r]
  have p: "draw_post e s s'" using r d by (rule drawWinner_Inr_post)
  have u: "unat (of_nat k :: uint32) = k" if "k < length ?ps" for k
    using that f(15) by (rule unat_position)
  have g: "\<And>h a. (h, a) \<in> acl s \<Longrightarrow> a = this_address s \<or> grant_shape ?ps h a"
    using inv by (auto simp add: acl_inv_def)
  have a': "acl s' = acl s \<union> {(?W, this_address s)} \<union>
       (\<Union>k\<in>{..<length ?ps}.
          {(FheEq ?W (TrivialEncrypt32 (of_nat k)), this_address s),
           (FheEq ?W (TrivialEncrypt32 (of_nat k)), ?ps ! k),
           (?W, ?ps ! k)})"
    using p by (simp add: draw_post_def)
  have "a = this_address s' \<or> grant_shape (s_participants s') h a" if "(h, a) \<in> acl s'" for h a
  proof (cases "(h, a) \<in> acl s")
    case True
    then show ?thesis using g [of h a] by (auto simp add: f(5,6))
  next
    case False
    then have "a = this_address s \<or> h = ?W \<or>
        (\<exists>k < length ?ps. h = FheEq ?W (TrivialEncrypt32 (of_nat k)) \<and> a = ?ps ! k)"
      using that unfolding a' by auto
    then show ?thesis using u by (auto simp add: f(5,6))
  qed
  moreover have "status_shape i (s_winStatus s' (s_participants s' ! i))"
    if "i < length (s_participants s')" for i
    using p that u [of i] by (simp add: draw_post_def)
  ultimately show ?thesis unfolding acl_inv_def by (simp add: f(10))
qed

lemma acl_inv_transact:
  assumes "acl_inv s" and "registry_ok s"
  shows "acl_inv (transact s tx)"
proof (cases rule: transact_cases [of tx s])
  case (reverted err)
  then show ?thesis using assms by simp
next
  case (registered x p)
  then show ?thesis using acl_inv_register [OF assms(1) registered(2)] by simp
next
  case drawn
  have "distinct (s_participants s)" using assms(2) by (simp add: registry_ok_def)
  then show ?thesis using acl_inv_drawWinner [OF assms(1) _ drawn(2)] by simp
qed

lemma acl_inv_run:
  "acl_inv s \<Longrightarrow> registry_ok s \<Longrightarrow> acl_inv (run s txs)"
  by (induction txs arbitrary: s) (simp_all add: acl_inv_transact registry_ok_transact)

lemma drawn_result_private_inv:
  assumes inv: "acl_inv s" and ok: "registry_ok s"
  shows "drawn_result_private s"
  unfolding drawn_result_private_def
proof (intro allI impI)
  fix p a
  let ?ps = "s_participants s"
  assume pa: "isRegistered s p \<and> (s_winStatus s p, a) \<in> acl s"
  have mem: "\<And>b. isRegistered s b \<longleftrightarrow> b \<in> set ?ps" using ok by (simp add: registry_ok_def)
  obtain i where i: "i < length ?ps" "p = ?ps ! i"
    using pa mem by (auto simp add: in_set_conv_nth)
  have st: "status_shape i (s_winStatus s p)" using inv i by (simp add: acl_inv_def)
  show "a = this_address s \<or> a = p \<or>
        (s_winStatus s p = FHE_asEbool False \<and> isRegistered s a)"
  proof (cases "a = this_address s")
    case True
    then show ?thesis by simp
  next
    case False
    then have g: "grant_shape ?ps (s_winStatus s p) a"
      using inv pa by (auto simp add: acl_inv_def)
    from st [unfolded status_shape_iff] show ?thesis
    proof
      assume e: "s_winStatus s p = TrivialEncryptBool False"
      then have "a \<in> set ?ps" using g by simp
      then show ?thesis using e mem by (simp add: FHE_asEbool_def)
    next
      assume "\<exists>w k. s_winStatus s p = FheEq (TrivialEncrypt32 w) (TrivialEncrypt32 k) \<and>
                unat k = i"
      then obtain w k where
        e: "s_winStatus s p = FheEq (TrivialEncrypt32 w) (TrivialEncrypt32 k)" "unat k = i"
        by blast
      then have "a = ?ps ! i" using g by simp
      then show ?thesis using i(2) by simp
    qed
  qed
qed

lemma own_result_granted_constructor: "own_result_granted (constructor deployer this m)"
  by (simp add: own_result_granted_def constructor_def isRegistered_def)

lemma own_result_granted_register:
  assumes inv: "own_result_granted s" and r: "register e x p s = Inr s'"
  shows "own_result_granted s'"
  unfolding own_result_granted_def
proof (intro allI impI)
  fix q assume q: "isRegistered s' q"
  note f = register_Inr_fields [OF r]
  show "(s_winStatus s' q, q) \<in> acl s' \<and> (s_winStatus s' q, this_address s') \<in> acl s'"
  proof (cases "q = msg_sender e")
    case True
    then show ?thesis by (simp add: f(3,8,12))
  next
    case False
    then have "isRegistered s q" using q by (simp add: isRegistered_def f(5))
    then have "(s_winStatus s q, q) \<in> acl s \<and> (s_winStatus s q, this_address s) \<in> acl s"
      using inv by (simp add: own_result_granted_def)
    then show ?thesis using False by (simp add: f(3,8,12))
  qed
qed

lemma own_result_granted_drawWinner:
  assumes ok: "registry_ok s" and r: "drawWinner e s = Inr s'"
  shows "own_result_granted s'"
  unfolding own_result_granted_def
proof (intro allI impI)
  fix q assume q: "isRegistered s' q"
  let ?ps = "s_participants s" and ?W = "TrivialEncrypt32 (winnerIndex e s)"
  note f = drawWinner_Inr_fields [OF r]
  have d: "distinct ?ps" and mem: "\<And>b. s_registered s b \<longleftrightarrow> b \<in> set ?ps"
    using ok by (simp_all add: registry_ok_def isRegistered_def)
  have p: "draw_post e s s'" using r d by (rule drawWinner_Inr_post)
  have "q \<in> set ?ps" using q mem by (simp add: isRegistered_def f(7))
  then obtain i where i: "i < length ?ps" "q = ?ps ! i" by (auto simp add: in_set_conv_nth)
  have st: "s_winStatus s' (?ps ! i) = FheEq ?W (TrivialEncrypt32 (of_nat i))"
    using p i(1) by (simp add: draw_post_def)
  have a': "acl s' = acl s \<union> {(?W, this_address s)} \<union>
       (\<Union>k\<in>{..<length ?ps}.
          {(FheEq ?W (TrivialEncrypt32 (of_nat k)), this_address s),
           (FheEq ?W (TrivialEncrypt32 (of_nat k)), ?ps ! k),
           (?W, ?ps ! k)})"
    using p by (simp add: draw_post_def)
  have "(FheEq ?W (TrivialEncrypt32 (of_nat i)), ?ps ! i) \<in> acl s'"
    "(FheEq ?W (TrivialEncrypt32 (of_nat i)), this_address s) \<in> acl s'"
    unfolding a' using i(1) by blast+
  then show "(s_winStatus s' q, q) \<in> acl s' \<and> (s_winStatus s' q, this_address s') \<in> acl s'"
    by (simp add: st i(2) f(5))
qed

lemma own_result_granted_transact:
  assumes "own_result_granted s" and "registry_ok s"
  shows "own_result_granted (transact s tx)"
proof (cases rule: transact_cases [of tx s])
  case (reverted err)
  then show ?thesis using assms by simp
next
  case (registered x p)
  then show ?thesis using own_result_granted_register [OF assms(1) registered(2)] by simp
next
  case drawn
  then show ?thesis using own_result_granted_drawWinner [OF assms(2) drawn(2)] by simp
qed

lemma own_result_granted_run:
  "own_result_granted s \<Longrightarrow> registry_ok s \<Longrightarrow> own_result_granted (run s txs)"
  by (induction txs arbitrary: s)
    (simp_all add: own_result_granted_transact registry_ok_transact)

section \<open>The example inputs\<close>

subsection \<open>The example run\<close>

lemma example_evm_simps [simp]:
  "msg_sender (example_evm a n) = a"
  "block_number (example_evm a n) = n"
  "blockhash (example_evm a n) = (\<lambda>n. 3 * n + 1)"
  "block_prevrandao (example_evm a n) = 7"
  "block_timestamp (example_evm a n) = 12 * n"
  "keccak256 (example_evm a n) = sum_list"
  "verifyCiphertext (example_evm a n) h b p \<longleftrightarrow> p \<noteq> []"
  "gas_passes (example_evm a n) = 200"
  by (simp_all add: example_evm_def)

lemma example_register_ok:
  "register (example_evm 2 1) 42 [1] example_deployed = Inr example_registered"
proof -
  have "\<exists>s'. register (example_evm 2 1) 42 [1] example_deployed = Inr s'"
    unfolding register_Inr_guard
    by (simp add: example_evm_def example_deployed_def constructor_def)
  then show ?thesis by (auto simp add: example_registered_def transact_def)
qed

lemma example_registered_state:
  "ADMIN_ADDRESS example_registered = 1"
  "MAX_PARTICIPANTS example_registered = 2"
  "this_address example_registered = 99"
  "s_participants example_registered = [2]"
  "s_registered example_registered = (\<lambda>_. False)(2 := True)"
  "s_winStatus example_registered = (\<lambda>_. ZeroHandle)(2 := TrivialEncryptBool False)"
  "s_encryptedWinnerIndex example_registered = ZeroHandle"
  "\<not> s_hasDrawn example_registered"
  "s_lastDrawTimestamp example_registered = 0"
  "acl example_registered =
     {(VerifiedInput 42, 99), (VerifiedInput 42, 2),
      (TrivialEncryptBool False, 99), (TrivialEncryptBool False, 2)}"
  using register_Inr_fields [OF example_register_ok]
  by (simp_all add: example_deployed_def constructor_def)

lemma example_draw_ok:
  "drawWinner (example_evm 1 2) example_registered = Inr example_drawn"
  "draw_post (example_evm 1 2) example_registered example_drawn"
proof -
  obtain s' where s': "drawWinner (example_evm 1 2) example_registered = Inr s'"
      "draw_post (example_evm 1 2) example_registered s'"
    using drawWinner_success [of "example_evm 1 2" example_registered]
    by (auto simp add: example_registered_state)
  then have "example_drawn = s'" by (simp add: example_drawn_def transact_def)
  with s' show "drawWinner (example_evm 1 2) example_registered = Inr example_drawn"
    "draw_post (example_evm 1 2) example_registered example_drawn" by simp_all
qed

lemma example_winner_1: "winnerIndex (example_evm 1 2) example_registered = 0"
  by (simp add: winnerIndex_def example_registered_state)

lemma example_drawn_state:
  "ADMIN_ADDRESS example_drawn = 1"
  "MAX_PARTICIPANTS example_drawn = 2"
  "this_address example_drawn = 99"
  "s_participants example_drawn = [2]"
  "s_registered example_drawn = (\<lambda>_. False)(2 := True)"
  "s_winStatus example_drawn 2 = FheEq (TrivialEncrypt32 0) (TrivialEncrypt32 0)"
  "s_encryptedWinnerIndex example_drawn = TrivialEncrypt32 0"
  "s_hasDrawn example_drawn"
  "s_lastDrawTimestamp example_drawn = 24"
  "acl example_drawn =
     {(VerifiedInput 42, 99), (VerifiedInput 42, 2),
      (TrivialEncryptBool False, 99), (TrivialEncryptBool False, 2),
      (TrivialEncrypt32 0, 99),
      (FheEq (TrivialEncrypt32 0) (TrivialEncrypt32 0), 99),
      (FheEq (TrivialEncrypt32 0) (TrivialEncrypt32 0), 2),
      (TrivialEncrypt32 0, 2)}"
  using example_draw_ok(2)
  by (auto simp add: draw_post_def example_registered_state example_winner_1)

lemma example_late_ok:
  "register (example_evm 3 3) 43 [1] example_drawn = Inr example_late"
proof -
  have "\<exists>s'. register (example_evm 3 3) 43 [1] example_drawn = Inr s'"
    unfolding register_Inr_guard by (simp add: example_drawn_state)
  then show ?thesis by (auto simp add: example_late_def transact_def)
qed

lemma example_late_state:
  "ADMIN_ADDRESS example_late = 1"
  "MAX_PARTICIPANTS example_late = 2"
  "this_address example_late = 99"
  "s_participants example_late = [2, 3]"
  "s_registered example_late = (\<lambda>_. False)(2 := True, 3 := True)"
  "s_winStatus example_late 2 = FheEq (TrivialEncrypt32 0) (TrivialEncrypt32 0)"
  "s_winStatus example_late 3 = TrivialEncryptBool False"
  "s_indices example_late 3 = 1"
  "s_encryptedWinnerIndex example_late = TrivialEncrypt32 0"
  "s_hasDrawn example_late"
  "s_lastDrawTimestamp example_late = 24"
  "(TrivialEncryptBool False, 2) \<in> acl example_late"
  "(TrivialEncrypt32 0, 3) \<in> acl example_late"
  using register_Inr_fields [OF example_late_ok]
  by (simp_all add: example_drawn_state)

lemma example_redraw_ok:
  "drawWinner (example_evm 1 4) example_late = Inr example_redrawn"
  "draw_post (example_evm 1 4) example_late example_redrawn"
proof -
  obtain s' where s': "drawWinner (example_evm 1 4) example_late = Inr s'"
      "draw_post (example_evm 1 4) example_late s'"
    using drawWinner_success [of "example_evm 1 4" example_late]
    by (auto simp add: example_late_state)
  then have "example_redrawn = s'" by (simp add: example_redrawn_def transact_def)
  with s' show "drawWinner (example_evm 1 4) example_late = Inr example_redrawn"
    "draw_post (example_evm 1 4) example_late example_redrawn" by simp_all
qed

lemma example_winner_2: "winnerIndex (example_evm 1 4) example_late = 1"
proof -
  have "length (s_participants example_late) = 2" by (simp add: example_late_state)
  then show ?thesis by (simp add: winnerIndex_def randomSeed_def example_late_state(11))
qed

lemma example_redrawn_state:
  "s_participants example_redrawn = [2, 3]"
  "s_winStatus example_redrawn 2 = FheEq (TrivialEncrypt32 1) (TrivialEncrypt32 0)"
  "s_winStatus example_redrawn 3 = FheEq (TrivialEncrypt32 1) (TrivialEncrypt32 1)"
  "s_encryptedWinnerIndex example_redrawn = TrivialEncrypt32 1"
  "s_hasDrawn example_redrawn"
proof -
  note p = example_redraw_ok(2) [unfolded draw_post_def example_winner_2]
  show "s_participants example_redrawn = [2, 3]" using p by (simp add: example_late_state)
  have "\<forall>k<length (s_participants example_late).
          s_winStatus example_redrawn (s_participants example_late ! k) =
            FheEq (TrivialEncrypt32 1) (TrivialEncrypt32 (of_nat k))"
    using p by blast
  then have "\<forall>k<2. s_winStatus example_redrawn ([2, 3] ! k) =
            FheEq (TrivialEncrypt32 1) (TrivialEncrypt32 (of_nat k))"
    by (simp add: example_late_state)
  from this [rule_format, of 0] this [rule_format, of 1]
  show "s_winStatus example_redrawn 2 = FheEq (TrivialEncrypt32 1) (TrivialEncrypt32 0)"
    "s_winStatus example_redrawn 3 = FheEq (TrivialEncrypt32 1) (TrivialEncrypt32 1)"
    by simp_all
  show "s_encryptedWinnerIndex example_redrawn = TrivialEncrypt32 1" using p by simp
  show "s_hasDrawn example_redrawn" using p by simp
qed

lemma example_drawn_run:
  "example_drawn =
     run (constructor 1 99 2) [(example_evm 2 1, Register 42 [1]), (example_evm 1 2, DrawWinner)]"
  by (simp add: example_drawn_def example_registered_def example_deployed_def)

lemma example_late_run:
  "example_late =
     run (constructor 1 99 2)
       [(example_evm 2 1, Register 42 [1]), (example_evm 1 2, DrawWinner),
        (example_evm 3 3, Register 43 [1])]"
  by (simp add: example_late_def example_drawn_def example_registered_def example_deployed_def)

lemma example_late_registry: "registry_ok example_late"
  unfolding example_late_run by (rule registry_ok_run) (rule registry_ok_constructor)

subsection \<open>The crowded registry\<close>

lemma length_first_addresses [simp]: "length (first_addresses n) = n"
  by (simp add: first_addresses_def)

lemma unat_address_of_nat: "i < 2 ^ 160 \<Longrightarrow> unat (of_nat i :: address) = i"
  by (simp add: unat_of_nat)

lemma first_addresses_Suc:
  "first_addresses (Suc n) = first_addresses n @ [of_nat n]"
  by (simp add: first_addresses_def)

lemma crowded_Suc:
  assumes "1 \<le> n"
  shows "crowded (Suc n) = transact (crowded n) (join n)"
proof -
  have "[1..<Suc n] = [1..<n] @ [n]" using assms by simp
  then have "crowd (Suc n) = crowd n @ [join n]" by (simp add: crowd_def)
  then show ?thesis unfolding crowded_def by (simp only: run_snoc)
qed

lemma crowded_1:
  "MAX_PARTICIPANTS (crowded 1) = 2 ^ 34"
  "ADMIN_ADDRESS (crowded 1) = 1"
  "s_participants (crowded 1) = first_addresses 1"
  "s_registered (crowded 1) = (\<lambda>a. unat a < 1)"
  "s_hasDrawn (crowded 1)"
  "s_encryptedWinnerIndex (crowded 1) = TrivialEncrypt32 0"
proof -
  let ?c = "constructor 1 (2 ^ 100) (2 ^ 34)"
  have "\<exists>s1. register (example_evm 0 1) 0 [1] ?c = Inr s1"
    unfolding register_Inr_guard by (simp add: constructor_def)
  then obtain s1 where r: "register (example_evm 0 1) 0 [1] ?c = Inr s1" ..
  note f = register_Inr_fields [OF r]
  have ps: "s_participants s1 = [0]" by (simp add: f(4) constructor_def)
  have "\<exists>s2. drawWinner (example_evm 1 2) s1 = Inr s2"
    unfolding drawWinner_Inr_iff by (simp add: f(1) ps constructor_def)
  then obtain s2 where d: "drawWinner (example_evm 1 2) s1 = Inr s2" ..
  note g = drawWinner_Inr_fields [OF d]
  have "crowd 1 = [(example_evm 0 1, Register 0 [1]), (example_evm 1 2, DrawWinner)]"
    by (simp add: crowd_def join_def)
  then have c: "crowded 1 = s2"
    unfolding crowded_def
    by (simp only: run_Cons run_Nil transact_Register_Inr [OF r] transact_DrawWinner_Inr [OF d])
  have w: "winnerIndex (example_evm 1 2) s1 = 0" by (simp add: winnerIndex_def ps)
  show "MAX_PARTICIPANTS (crowded 1) = 2 ^ 34"
    unfolding c by (simp add: g(4) f(2) constructor_def)
  show "ADMIN_ADDRESS (crowded 1) = 1" unfolding c by (simp add: g(3) f(1) constructor_def)
  show "s_participants (crowded 1) = first_addresses 1"
    unfolding c by (simp add: g(6) ps first_addresses_def)
  show "s_registered (crowded 1) = (\<lambda>a. unat a < 1)"
    unfolding c by (auto simp add: g(7) f(5) constructor_def unat_eq_0 fun_eq_iff)
  show "s_hasDrawn (crowded 1)" unfolding c by (simp add: g(11))
  show "s_encryptedWinnerIndex (crowded 1) = TrivialEncrypt32 0"
    unfolding c by (simp add: g(10) w)
qed

lemma crowded_state:
  assumes "1 \<le> n"
  shows "n \<le> 2 ^ 34 \<longrightarrow>
         MAX_PARTICIPANTS (crowded n) = 2 ^ 34 \<and>
         ADMIN_ADDRESS (crowded n) = 1 \<and>
         s_participants (crowded n) = first_addresses n \<and>
         s_registered (crowded n) = (\<lambda>a. unat a < n) \<and>
         s_hasDrawn (crowded n) \<and>
         s_encryptedWinnerIndex (crowded n) = TrivialEncrypt32 0"
  using assms
proof (induction n rule: nat_induct_at_least)
  case base
  show ?case using crowded_1 by simp
next
  case (Suc n)
  show ?case
  proof
    assume le: "Suc n \<le> 2 ^ 34"
    then have n: "n < 2 ^ 34" by simp
    then have "n < 2 ^ 160" by (rule less_trans) simp
    then have un: "unat (of_nat n :: address) = n" by (rule unat_address_of_nat)
    have ih: "MAX_PARTICIPANTS (crowded n) = 2 ^ 34" "ADMIN_ADDRESS (crowded n) = 1"
      "s_participants (crowded n) = first_addresses n"
      "s_registered (crowded n) = (\<lambda>a. unat a < n)"
      "s_hasDrawn (crowded n)" "s_encryptedWinnerIndex (crowded n) = TrivialEncrypt32 0"
      using Suc.IH n by simp_all
    have "\<exists>s'. register (example_evm (of_nat n) 1) (of_nat n) [1] (crowded n) = Inr s'"
      unfolding register_Inr_guard using n by (simp add: ih un)
    then obtain s' where
      r: "register (example_evm (of_nat n) 1) (of_nat n) [1] (crowded n) = Inr s'" ..
    note f = register_Inr_fields [OF r]
    have c: "crowded (Suc n) = s'"
      unfolding crowded_Suc [OF Suc.hyps] by (simp add: join_def transact_def r)
    have reg: "s_registered s' = (\<lambda>a. unat a < Suc n)"
    proof
      fix a :: address
      have "a = of_nat n \<longleftrightarrow> unat a = n" using un by auto
      then show "s_registered s' a = (unat a < Suc n)" by (auto simp add: f(5) ih)
    qed
    show "MAX_PARTICIPANTS (crowded (Suc n)) = 2 ^ 34 \<and>
         ADMIN_ADDRESS (crowded (Suc n)) = 1 \<and>
         s_participants (crowded (Suc n)) = first_addresses (Suc n) \<and>
         s_registered (crowded (Suc n)) = (\<lambda>a. unat a < Suc n) \<and>
         s_hasDrawn (crowded (Suc n)) \<and>
         s_encryptedWinnerIndex (crowded (Suc n)) = TrivialEncrypt32 0"
      unfolding c using reg by (simp add: f(1,2,4,9,10) ih first_addresses_Suc)
  qed
qed

lemma crowded_join:
  assumes "1 \<le> n" and "n < 2 ^ 34"
  shows "register (example_evm (of_nat n) 1) (of_nat n) [1] (crowded n) = Inr (crowded (Suc n))"
proof -
  have "n < 2 ^ 160" using assms(2) by (rule less_trans) simp
  then have un: "unat (of_nat n :: address) = n" by (rule unat_address_of_nat)
  have "\<exists>s'. register (example_evm (of_nat n) 1) (of_nat n) [1] (crowded n) = Inr s'"
    unfolding register_Inr_guard using crowded_state [OF assms(1)] assms(2) by (simp add: un)
  then obtain s' where
    r: "register (example_evm (of_nat n) 1) (of_nat n) [1] (crowded n) = Inr s'" ..
  have "crowded (Suc n) = s'"
    unfolding crowded_Suc [OF assms(1)] by (simp add: join_def transact_def r)
  then show ?thesis using r by simp
qed

lemma crowded_wrap:
  "s_hasDrawn (crowded (2 ^ 32))"
  "register (example_evm (2 ^ 32) 1) (2 ^ 32) [1] (crowded (2 ^ 32)) =
     Inr (crowded (2 ^ 32 + 1))"
  "msg_sender (example_evm (2 ^ 32) 1) = 2 ^ 32"
  "decryptBool (s_winStatus (crowded (2 ^ 32 + 1)) (2 ^ 32)) = Some False"
  "decrypt32 (s_encryptedWinnerIndex (crowded (2 ^ 32 + 1))) =
     Some (s_indices (crowded (2 ^ 32 + 1)) (2 ^ 32))"
  "length (s_participants (crowded (2 ^ 32))) = 2 ^ 32"
  "s_participants (crowded (2 ^ 32 + 1)) ! (2 ^ 32) = 2 ^ 32"
  "last (logs (crowded (2 ^ 32 + 1))) = ParticipantRegistered (2 ^ 32) 0"
  "length (s_participants (crowded (2 ^ 32 + 1))) = 2 ^ 32 + 1"
  "s_indices (crowded (2 ^ 32 + 1)) (2 ^ 32) = 0"
proof -
  have a: "(of_nat (2 ^ 32) :: address) = 2 ^ 32" "(of_nat (2 ^ 32) :: bytes32) = 2 ^ 32"
    by simp_all
  have b: "(1::nat) \<le> 2 ^ 32" "(2::nat) ^ 32 \<le> 2 ^ 34" "(2::nat) ^ 32 < 2 ^ 34" by simp_all
  note st = crowded_state [OF b(1), THEN mp, OF b(2)]
  have r: "register (example_evm (2 ^ 32) 1) (2 ^ 32) [1] (crowded (2 ^ 32)) =
      Inr (crowded (Suc (2 ^ 32)))"
    using crowded_join [OF b(1) b(3)] unfolding a .
  have s: "Suc (2 ^ 32) = 2 ^ 32 + 1" by simp
  note f = register_Inr_fields [OF r, unfolded s]
  show "s_hasDrawn (crowded (2 ^ 32))" using st by blast
  show "register (example_evm (2 ^ 32) 1) (2 ^ 32) [1] (crowded (2 ^ 32)) =
     Inr (crowded (2 ^ 32 + 1))" using r unfolding s .
  show "msg_sender (example_evm (2 ^ 32) 1) = 2 ^ 32" by simp
  show l: "length (s_participants (crowded (2 ^ 32))) = 2 ^ 32" using st by simp
  show "decryptBool (s_winStatus (crowded (2 ^ 32 + 1)) (2 ^ 32)) = Some False"
    unfolding f(8) by simp
  show i: "s_indices (crowded (2 ^ 32 + 1)) (2 ^ 32) = 0"
    unfolding f(6) l by simp
  show "decrypt32 (s_encryptedWinnerIndex (crowded (2 ^ 32 + 1))) =
     Some (s_indices (crowded (2 ^ 32 + 1)) (2 ^ 32))"
    unfolding i f(9) using st by simp
  show "s_participants (crowded (2 ^ 32 + 1)) ! (2 ^ 32) = 2 ^ 32"
    unfolding f(4) using nth_append_length [of "s_participants (crowded (2 ^ 32))"
        "2 ^ 32 :: address" "[]"] unfolding l by simp
  show "last (logs (crowded (2 ^ 32 + 1))) = ParticipantRegistered (2 ^ 32) 0"
    unfolding f(13) l by simp
  show "length (s_participants (crowded (2 ^ 32 + 1))) = 2 ^ 32 + 1"
    unfolding f(4) using l by simp
qed

section \<open>The draw\<close>

text \<open>
  C1. In a state \<open>s\<close> reached from a deployment, a \<open>drawWinner\<close> that succeeds is a call by
  the administrator on a non-empty list, of \<open>n\<close> participants. It stores the encryption of
  a winner index that is the seed modulo \<open>n\<close>, so less than \<open>n\<close>; for every \<open>i < n\<close> it sets
  the win status of the participant at position \<open>i\<close> to the encrypted equality of the
  stored winner index with \<open>i\<close>, which decrypts to true exactly for \<open>i\<close> the winner index;
  and the registered address whose win status decrypts to true is the participant at the
  winner index and no other.
\<close>

theorem drawWinner_selects_one:
  assumes "s = run (constructor deployer this m) txs" and "drawWinner e s = Inr s'"
  shows "msg_sender e = deployer \<and> s_participants s \<noteq> [] \<and>
         decrypt32 (s_encryptedWinnerIndex s') = Some (winnerIndex e s) \<and>
         unat (winnerIndex e s) = unat (randomSeed e s) mod length (s_participants s) \<and>
         unat (winnerIndex e s) < length (s_participants s) \<and>
         (\<forall>i < length (s_participants s).
            s_winStatus s' (s_participants s ! i) =
              FHE_eq (s_encryptedWinnerIndex s') (FHE_asEuint32 (of_nat i)) \<and>
            decryptBool (s_winStatus s' (s_participants s ! i)) =
              Some (i = unat (winnerIndex e s))) \<and>
         (\<forall>a. isRegistered s' a \<and> decryptBool (s_winStatus s' a) = Some True
              \<longleftrightarrow> a = s_participants s ! unat (winnerIndex e s))"
proof -
  let ?ps = "s_participants s" and ?w = "winnerIndex e s"
  note f = drawWinner_Inr_fields [OF assms(2)]
  have ok: "registry_ok s"
    unfolding assms(1) by (rule registry_ok_run) (rule registry_ok_constructor)
  have adm: "ADMIN_ADDRESS s = deployer"
    unfolding assms(1) using run_immutables [of "constructor deployer this m" txs]
    by (simp add: constructor_def)
  have d: "distinct ?ps" and m: "\<And>a. s_registered s a \<longleftrightarrow> a \<in> set ?ps"
    using ok by (simp_all add: registry_ok_def isRegistered_def)
  have paid: "unat (gas_passes e) < 2 ^ 32" using unsigned_less [of "gas_passes e"] by simp
  then have le: "length ?ps \<le> 2 ^ 32" using f(15) by simp
  have p: "draw_post e s s'" using assms(2) d by (rule drawWinner_Inr_post)
  note u = unat_winnerIndex [OF f(2) le, of e]
  have st: "s_winStatus s' (?ps ! i) = FheEq (TrivialEncrypt32 ?w) (TrivialEncrypt32 (of_nat i))"
    if "i < length ?ps" for i
    using p that by (simp add: draw_post_def)
  have dec: "decryptBool (s_winStatus s' (?ps ! i)) = Some (i = unat ?w)"
    if "i < length ?ps" for i
  proof -
    have "i < 2 ^ 32" using that f(15) paid by simp
    then show ?thesis using st [OF that] of_nat_32_eq_iff [of i ?w] by simp
  qed
  have one: "isRegistered s' a \<and> decryptBool (s_winStatus s' a) = Some True
      \<longleftrightarrow> a = ?ps ! unat ?w" for a
  proof
    assume a: "isRegistered s' a \<and> decryptBool (s_winStatus s' a) = Some True"
    then have "a \<in> set ?ps" using m by (simp add: isRegistered_def f(7))
    then obtain i where i: "i < length ?ps" "a = ?ps ! i" by (auto simp add: in_set_conv_nth)
    then show "a = ?ps ! unat ?w" using a dec [OF i(1)] by simp
  next
    assume a: "a = ?ps ! unat ?w"
    then have "a \<in> set ?ps" using u(2) by simp
    then show "isRegistered s' a \<and> decryptBool (s_winStatus s' a) = Some True"
      using m a dec [OF u(2)] by (simp add: isRegistered_def f(7))
  qed
  have "decrypt32 (s_encryptedWinnerIndex s') = Some ?w" by (simp add: f(10))
  moreover have "\<forall>i < length ?ps.
      s_winStatus s' (?ps ! i) = FHE_eq (s_encryptedWinnerIndex s') (FHE_asEuint32 (of_nat i)) \<and>
      decryptBool (s_winStatus s' (?ps ! i)) = Some (i = unat ?w)"
    using st dec by (simp add: FHE_eq_def FHE_asEuint32_def f(10))
  moreover have "msg_sender e = deployer" using f(1) adm by simp
  ultimately show ?thesis using u one f(2) by blast
qed

theorem drawWinner_selects_one_witness:
  "drawWinner (example_evm 1 4) example_late = Inr example_redrawn \<and>
   msg_sender (example_evm 1 4) = 1 \<and>
   decrypt32 (s_encryptedWinnerIndex example_redrawn) = Some 1 \<and>
   decryptBool (s_winStatus example_redrawn 2) = Some False \<and>
   decryptBool (s_winStatus example_redrawn 3) = Some True \<and>
   isRegistered example_redrawn 3"
proof -
  note th = drawWinner_selects_one [OF example_late_run example_redraw_ok(1)]
  have "isRegistered example_redrawn
      (s_participants example_late ! unat (winnerIndex (example_evm 1 4) example_late))"
    using th by blast
  then have "isRegistered example_redrawn 3" by (simp add: example_winner_2 example_late_state)
  then show ?thesis
    using example_redraw_ok(1) by (simp add: example_redrawn_state)
qed

section \<open>Who may decrypt a win status\<close>

text \<open>
  C2, as stated, fails: every registrant's first win status is the same ciphertext, the
  encryption of false, and each registrant is granted access to it. In the example run
  account 2, registered before the first draw, holds a grant on the win status of
  account 3, which registered after it.
\<close>

theorem win_status_grants_counterexample:
  "isRegistered example_late 2 \<and>
   isRegistered example_late 3 \<and>
   s_winStatus example_late 3 = FHE_asEbool False \<and>
   (s_winStatus example_late 3, 2) \<in> acl example_late \<and>
   2 \<noteq> this_address example_late \<and>
   (2 :: address) \<noteq> 3 \<and>
   \<not> own_result_only example_late"
proof -
  have a: "isRegistered example_late 3" "isRegistered example_late 2"
    "(s_winStatus example_late 3, 2) \<in> acl example_late"
    "2 \<noteq> this_address example_late" "s_winStatus example_late 3 = FHE_asEbool False"
    by (simp_all add: isRegistered_def example_late_state FHE_asEbool_def)
  have "\<not> own_result_only example_late"
  proof
    assume "own_result_only example_late"
    then have "2 = this_address example_late \<or> (2 :: address) = 3"
      using a(1,3) unfolding own_result_only_def by blast
    then show False using a(4) by simp
  qed
  with a show ?thesis by simp
qed

text \<open>
  C2, amended. In every state reached from a deployment, each participant and the contract
  hold a grant on the win status of that participant, so each participant can decrypt
  their own result. An account that holds a grant on the win status of a participant is
  the contract, or that participant, or, only when that win status is still the encryption
  of false written at registration, another participant. Right after a successful draw
  every win status is one the draw has written, and the grants on it are held by the
  contract and its owner alone.
\<close>

theorem win_status_grants:
  "own_result_granted (run (constructor deployer this m) txs) \<and>
   drawn_result_private (run (constructor deployer this m) txs) \<and>
   (\<forall>e s'. drawWinner e (run (constructor deployer this m) txs) = Inr s' \<longrightarrow>
      own_result_only s')"
proof -
  have reach: "acl_inv (run (constructor deployer this m) ts) \<and>
      registry_ok (run (constructor deployer this m) ts)" for ts
  proof -
    let ?s = "run (constructor deployer this m) ts"
    have ok: "registry_ok ?s" by (rule registry_ok_run) (rule registry_ok_constructor)
    have "acl_inv ?s"
      by (rule acl_inv_run) (rule acl_inv_constructor, rule registry_ok_constructor)
    then show ?thesis using ok by simp
  qed
  let ?s = "run (constructor deployer this m) txs"
  have granted: "own_result_granted ?s"
    by (rule own_result_granted_run)
      (rule own_result_granted_constructor, rule registry_ok_constructor)
  have priv: "drawn_result_private (run (constructor deployer this m) ts)" for ts
    using reach [of ts] by (simp add: drawn_result_private_inv)
  have "own_result_only s'" if r: "drawWinner e ?s = Inr s'" for e s'
  proof -
    note f = drawWinner_Inr_fields [OF r]
    have d: "distinct (s_participants ?s)"
      and mem: "\<And>b. s_registered ?s b \<longleftrightarrow> b \<in> set (s_participants ?s)"
      using reach [of txs] by (simp_all add: registry_ok_def isRegistered_def)
    have p: "draw_post e ?s s'" using r d by (rule drawWinner_Inr_post)
    have s': "s' = run (constructor deployer this m) (txs @ [(e, DrawWinner)])"
      using r by (simp add: transact_def)
    have pr: "drawn_result_private s'" unfolding s' by (rule priv)
    have nf: "s_winStatus s' q \<noteq> FHE_asEbool False" if "isRegistered s' q" for q
    proof -
      have "q \<in> set (s_participants ?s)" using that mem by (simp add: isRegistered_def f(7))
      then obtain i where "i < length (s_participants ?s)" "q = s_participants ?s ! i"
        by (auto simp add: in_set_conv_nth)
      then show ?thesis using p by (simp add: draw_post_def FHE_asEbool_def)
    qed
    show ?thesis
      unfolding own_result_only_def
      using pr nf unfolding drawn_result_private_def by blast
  qed
  with granted priv [of txs] show ?thesis by blast
qed

theorem win_status_grants_witness:
  "own_result_granted example_late \<and>
   (s_winStatus example_late 3, 3) \<in> acl example_late \<and>
   drawn_result_private example_late \<and>
   drawWinner (example_evm 1 4) example_late = Inr example_redrawn \<and>
   own_result_only example_redrawn"
proof -
  note th = win_status_grants [of 1 99 2
      "[(example_evm 2 1, Register 42 [1]), (example_evm 1 2, DrawWinner),
        (example_evm 3 3, Register 43 [1])]", folded example_late_run]
  have "own_result_only example_redrawn" using th example_redraw_ok(1) by blast
  moreover have "isRegistered example_late 3" by (simp add: isRegistered_def example_late_state)
  then have "(s_winStatus example_late 3, 3) \<in> acl example_late"
    using th unfolding own_result_granted_def by blast
  ultimately show ?thesis using th example_redraw_ok(1) by blast
qed

section \<open>No phases\<close>

text \<open>
  C3, as stated, fails: the contract has no gate on \<open>_hasDrawn\<close>. In the example run
  account 3 registers after the first draw, and the administrator then draws a second
  time; both calls succeed.
\<close>

theorem lifecycle_counterexample:
  "s_hasDrawn example_drawn \<and>
   register (example_evm 3 3) 43 [1] example_drawn = Inr example_late \<and>
   isRegistered example_late 3 \<and>
   s_participants example_late = s_participants example_drawn @ [3] \<and>
   drawWinner (example_evm 1 4) example_late = Inr example_redrawn \<and>
   s_encryptedWinnerIndex example_redrawn \<noteq> s_encryptedWinnerIndex example_late"
  by (simp add: example_late_ok example_redraw_ok(1) example_drawn_state example_late_state
      example_redrawn_state isRegistered_def)

text \<open>
  C3, amended. The contract records that a draw has happened and enforces no lifecycle:
  \<open>_hasDrawn\<close> is false at deployment, a successful draw sets it, and once set it stays
  set; but whether \<open>register\<close> or \<open>drawWinner\<close> succeeds does not depend on it. A \<open>register\<close>
  succeeds exactly when the caller is not registered, the list is below the capacity and
  the input proof is accepted, and it leaves \<open>_hasDrawn\<close> as it was; a \<open>drawWinner\<close> succeeds
  exactly when the caller is the administrator, the list is not empty (the block is not
  block 0) and the transaction pays for a pass of the loop per participant. So after a
  draw, registrations and further draws remain possible under the conditions that hold
  before one.
\<close>

theorem no_phase_gate:
  "\<not> s_hasDrawn (constructor deployer this m) \<and>
   (s_hasDrawn s \<longrightarrow> s_hasDrawn (transact s tx)) \<and>
   ((\<exists>s'. register e x p s = Inr s') \<longleftrightarrow>
      \<not> isRegistered s (msg_sender e) \<and>
      length (s_participants s) < unat (MAX_PARTICIPANTS s) \<and>
      verifyCiphertext e x (msg_sender e) p) \<and>
   ((\<exists>s'. register e x p (s\<lparr>s_hasDrawn := b\<rparr>) = Inr s') \<longleftrightarrow>
      (\<exists>s'. register e x p s = Inr s')) \<and>
   (\<forall>s'. register e x p s = Inr s' \<longrightarrow> s_hasDrawn s' = s_hasDrawn s) \<and>
   ((\<exists>s'. drawWinner e s = Inr s') \<longleftrightarrow>
      msg_sender e = admin s \<and> s_participants s \<noteq> [] \<and> block_number e \<noteq> 0 \<and>
      length (s_participants s) \<le> unat (gas_passes e)) \<and>
   ((\<exists>s'. drawWinner e (s\<lparr>s_hasDrawn := b\<rparr>) = Inr s') \<longleftrightarrow>
      (\<exists>s'. drawWinner e s = Inr s')) \<and>
   (\<forall>s'. drawWinner e s = Inr s' \<longrightarrow> s_hasDrawn s')"
proof -
  have a: "\<not> s_hasDrawn (constructor deployer this m)" by (simp add: constructor_def)
  have b: "s_hasDrawn s \<longrightarrow> s_hasDrawn (transact s tx)"
  proof
    assume h: "s_hasDrawn s"
    show "s_hasDrawn (transact s tx)"
    proof (cases rule: transact_cases [of tx s])
      case (reverted err)
      then show ?thesis using h by simp
    next
      case (registered x p)
      then show ?thesis using register_Inr_fields(10) [OF registered(2)] h by simp
    next
      case drawn
      then show ?thesis using drawWinner_Inr_fields(11) [OF drawn(2)] by simp
    qed
  qed
  have c: "(\<exists>s'. register e x p s = Inr s') \<longleftrightarrow>
      \<not> isRegistered s (msg_sender e) \<and>
      length (s_participants s) < unat (MAX_PARTICIPANTS s) \<and>
      verifyCiphertext e x (msg_sender e) p"
    unfolding register_Inr_guard by (simp add: isRegistered_def)
  have d: "(\<exists>s'. register e x p (s\<lparr>s_hasDrawn := b\<rparr>) = Inr s') \<longleftrightarrow>
      (\<exists>s'. register e x p s = Inr s')"
    unfolding register_Inr_guard by simp
  have f: "\<forall>s'. register e x p s = Inr s' \<longrightarrow> s_hasDrawn s' = s_hasDrawn s"
    using register_Inr_fields(10) by blast
  have g: "(\<exists>s'. drawWinner e s = Inr s') \<longleftrightarrow>
      msg_sender e = admin s \<and> s_participants s \<noteq> [] \<and> block_number e \<noteq> 0 \<and>
      length (s_participants s) \<le> unat (gas_passes e)"
    unfolding drawWinner_Inr_iff by (simp add: admin_def)
  have h: "(\<exists>s'. drawWinner e (s\<lparr>s_hasDrawn := b\<rparr>) = Inr s') \<longleftrightarrow>
      (\<exists>s'. drawWinner e s = Inr s')"
    unfolding drawWinner_Inr_iff by simp
  have i: "\<forall>s'. drawWinner e s = Inr s' \<longrightarrow> s_hasDrawn s'"
    using drawWinner_Inr_fields(11) by blast
  show ?thesis using a b c d f g h i by (intro conjI)
qed

theorem no_phase_gate_witness:
  "\<not> s_hasDrawn (constructor 1 99 2) \<and>
   s_hasDrawn example_drawn \<and>
   s_hasDrawn (transact example_drawn (example_evm 3 3, Register 43 [1])) \<and>
   (\<exists>s'. register (example_evm 3 3) 43 [1] example_drawn = Inr s') \<and>
   s_hasDrawn example_late \<and>
   (\<exists>s'. drawWinner (example_evm 1 4) example_late = Inr s')"
proof -
  note th = no_phase_gate [of 1 99 2 example_drawn "(example_evm 3 3, Register 43 [1])"
      "example_evm 3 3" 43 "[1]" True]
  note th' = no_phase_gate [of 1 99 2 example_late "(example_evm 3 3, Register 43 [1])"
      "example_evm 1 4" 43 "[1]" True]
  have h: "s_hasDrawn example_drawn" by (simp add: example_drawn_state)
  have r: "\<not> isRegistered example_drawn (msg_sender (example_evm 3 3)) \<and>
      length (s_participants example_drawn) < unat (MAX_PARTICIPANTS example_drawn) \<and>
      verifyCiphertext (example_evm 3 3) 43 (msg_sender (example_evm 3 3)) [1]"
    by (simp add: isRegistered_def example_drawn_state)
  have d: "msg_sender (example_evm 1 4) = admin example_late \<and>
      s_participants example_late \<noteq> [] \<and> block_number (example_evm 1 4) \<noteq> 0 \<and>
      length (s_participants example_late) \<le> unat (gas_passes (example_evm 1 4))"
    by (simp add: admin_def example_late_state)
  have 1: "\<not> s_hasDrawn (constructor 1 99 2)" using th by blast
  have 2: "s_hasDrawn (transact example_drawn (example_evm 3 3, Register 43 [1]))"
    using th h by blast
  have 3: "\<exists>s'. register (example_evm 3 3) 43 [1] example_drawn = Inr s'"
    using th r by blast
  have 4: "s_hasDrawn example_late" using 2 by (simp add: example_late_def)
  have 5: "\<exists>s'. drawWinner (example_evm 1 4) example_late = Inr s'"
    using th' d by blast
  show ?thesis using 1 h 2 3 4 5 by (intro conjI)
qed

section \<open>The administrator\<close>

text \<open>
  C4. In every state reached from a deployment by \<open>deployer\<close>, \<open>drawWinner\<close> reverts with
  \<open>NotAuthorized\<close> exactly when the caller is not \<open>deployer\<close>; the transaction then leaves
  the state as it was; and \<open>admin()\<close> returns \<open>deployer\<close>.
\<close>

theorem drawWinner_NotAuthorized_iff:
  "(drawWinner e (run (constructor deployer this maxP) txs) = Inl NotAuthorized
      \<longleftrightarrow> msg_sender e \<noteq> deployer) \<and>
   (msg_sender e \<noteq> deployer \<longrightarrow>
      transact (run (constructor deployer this maxP) txs) (e, DrawWinner) =
        run (constructor deployer this maxP) txs) \<and>
   admin (run (constructor deployer this maxP) txs) = deployer"
proof -
  let ?s = "run (constructor deployer this maxP) txs"
  have a: "ADMIN_ADDRESS ?s = deployer"
    using run_immutables [of "constructor deployer this maxP" txs]
    by (simp add: constructor_def)
  have i: "drawWinner e ?s = Inl NotAuthorized \<longleftrightarrow> msg_sender e \<noteq> deployer"
    by (simp add: drawWinner_Inl_iff a)
  have u: "msg_sender e \<noteq> deployer \<longrightarrow> transact ?s (e, DrawWinner) = ?s"
  proof
    assume "msg_sender e \<noteq> deployer"
    then have "drawWinner e ?s = Inl NotAuthorized" using i by blast
    then show "transact ?s (e, DrawWinner) = ?s" by (simp add: transact_def)
  qed
  show ?thesis using i u a by (simp add: admin_def)
qed

theorem drawWinner_NotAuthorized_iff_witness:
  "drawWinner (example_evm 5 1) (run (constructor 1 99 2) []) = Inl NotAuthorized \<and>
   transact (run (constructor 1 99 2) []) (example_evm 5 1, DrawWinner) =
     run (constructor 1 99 2) [] \<and>
   admin (run (constructor 1 99 2) []) = 1"
  using drawWinner_NotAuthorized_iff [of "example_evm 5 1" 1 99 2 "[]"]
  by (simp add: example_evm_def)

section \<open>Registering once\<close>

text \<open>
  C5. A call of \<open>register\<close> by a registered address reverts with \<open>AlreadyRegistered\<close> and
  the transaction leaves the whole state (list, indices, identifiers, win statuses) as it
  was. After a successful \<open>register\<close> the caller is registered, \<open>participantCount()\<close> has
  grown by exactly one, and every later \<open>register\<close> by the same caller, after any
  transactions, reverts with \<open>AlreadyRegistered\<close>: no address registers twice.
\<close>

theorem register_at_most_once:
  "(isRegistered s (msg_sender e) \<longrightarrow>
      register e x p s = Inl AlreadyRegistered \<and> transact s (e, Register x p) = s) \<and>
   (\<forall>s'. register e x p s = Inr s' \<longrightarrow>
      isRegistered s' (msg_sender e) \<and>
      unat (participantCount s') = unat (participantCount s) + 1 \<and>
      (\<forall>txs e' x' p'. msg_sender e' = msg_sender e \<longrightarrow>
         register e' x' p' (run s' txs) = Inl AlreadyRegistered))"
proof (intro conjI impI allI)
  assume "isRegistered s (msg_sender e)"
  then show r: "register e x p s = Inl AlreadyRegistered"
    by (simp add: register_Inl_iff isRegistered_def)
  then show "transact s (e, Register x p) = s" by (simp add: transact_def)
next
  fix s' assume ok: "register e x p s = Inr s'"
  note f = register_Inr_fields [OF ok]
  show reg: "isRegistered s' (msg_sender e)" by (simp add: isRegistered_def f(5))
  have lt: "length (s_participants s) < unat (MAX_PARTICIPANTS s)"
    using register_Inr_guard [of e x p s] ok by auto
  have "unat (participantCount s') = length (s_participants s')"
    by (rule unat_participantCount) (use lt in \<open>simp add: f(2,4)\<close>)
  moreover have "unat (participantCount s) = length (s_participants s)"
    by (rule unat_participantCount) (use lt in simp)
  ultimately show "unat (participantCount s') = unat (participantCount s) + 1"
    by (simp add: f(4))
  fix txs and e' :: evm and x' p' assume "msg_sender e' = msg_sender e"
  then have "s_registered (run s' txs) (msg_sender e')"
    using reg run_registered [of s' "msg_sender e" txs] by (simp add: isRegistered_def)
  then show "register e' x' p' (run s' txs) = Inl AlreadyRegistered"
    by (simp add: register_Inl_iff)
qed

theorem register_at_most_once_witness:
  "register (example_evm 2 1) 42 [1] example_deployed = Inr example_registered \<and>
   isRegistered example_registered 2 \<and>
   unat (participantCount example_registered) = unat (participantCount example_deployed) + 1 \<and>
   register (example_evm 2 7) 43 [1] (run example_registered []) = Inl AlreadyRegistered \<and>
   transact example_registered (example_evm 2 7, Register 43 [1]) = example_registered"
proof -
  have s: "msg_sender (example_evm 2 1) = 2" "msg_sender (example_evm 2 7) = 2"
    by simp_all
  note a = register_at_most_once [of example_deployed "example_evm 2 1" 42 "[1]"]
  have r: "isRegistered example_registered 2 \<and>
      unat (participantCount example_registered) = unat (participantCount example_deployed) + 1 \<and>
      register (example_evm 2 7) 43 [1] (run example_registered []) = Inl AlreadyRegistered"
    using a example_register_ok s by (metis (no_types))
  note b = register_at_most_once [of example_registered "example_evm 2 7" 43 "[1]"]
  have "transact example_registered (example_evm 2 7, Register 43 [1]) = example_registered"
    using b r s by (metis (no_types))
  then show ?thesis using r example_register_ok by blast
qed

section \<open>Drawing from an empty list\<close>

text \<open>
  C6, as stated, fails: on an empty list a caller other than the administrator is turned
  away by \<open>onlyAdmin\<close>, with \<open>NotAuthorized\<close>, before the list is looked at.
\<close>

theorem drawWinner_NoParticipants_counterexample:
  "s_participants example_deployed = [] \<and>
   drawWinner (example_evm 5 1) example_deployed \<noteq> Inl NoParticipants \<and>
   drawWinner (example_evm 5 1) example_deployed = Inl NotAuthorized"
  by (simp add: drawWinner_Inl_iff example_evm_def example_deployed_def constructor_def)

text \<open>
  C6, amended. When the administrator calls, \<open>drawWinner\<close> reverts with \<open>NoParticipants\<close>
  exactly when the list is empty. A draw that reverts, for whatever reason, leaves the
  state as it was, so the encrypted winner index, \<open>_hasDrawn\<close>, \<open>_lastDrawTimestamp\<close> and
  every win status are unchanged; a draw that does not revert has written the status of
  every participant of a duplicate-free list.
\<close>

theorem drawWinner_NoParticipants_iff:
  assumes "msg_sender e = admin s"
  shows "(drawWinner e s = Inl NoParticipants \<longleftrightarrow> s_participants s = []) \<and>
         (\<forall>err. drawWinner e s = Inl err \<longrightarrow> transact s (e, DrawWinner) = s) \<and>
         (\<forall>s'. drawWinner e s = Inr s' \<and> distinct (s_participants s) \<longrightarrow>
            (\<forall>k < length (s_participants s).
               s_winStatus s' (s_participants s ! k) =
                 FHE_eq (s_encryptedWinnerIndex s') (FHE_asEuint32 (of_nat k))))"
proof (intro conjI allI impI)
  show "drawWinner e s = Inl NoParticipants \<longleftrightarrow> s_participants s = []"
    using assms by (simp add: drawWinner_Inl_iff admin_def)
next
  fix err assume "drawWinner e s = Inl err"
  then show "transact s (e, DrawWinner) = s" by (simp add: transact_def)
next
  fix s' k
  assume ok: "drawWinner e s = Inr s' \<and> distinct (s_participants s)"
    and k: "k < length (s_participants s)"
  have "draw_post e s s'" using ok by (intro drawWinner_Inr_post) simp_all
  then show "s_winStatus s' (s_participants s ! k) =
                 FHE_eq (s_encryptedWinnerIndex s') (FHE_asEuint32 (of_nat k))"
    using k by (simp add: draw_post_def FHE_eq_def FHE_asEuint32_def)
qed

theorem drawWinner_NoParticipants_iff_witness:
  "msg_sender (example_evm 1 1) = admin example_deployed \<and>
   s_participants example_deployed = [] \<and>
   drawWinner (example_evm 1 1) example_deployed = Inl NoParticipants \<and>
   transact example_deployed (example_evm 1 1, DrawWinner) = example_deployed \<and>
   msg_sender (example_evm 1 4) = admin example_late \<and>
   drawWinner (example_evm 1 4) example_late = Inr example_redrawn \<and>
   distinct (s_participants example_late) \<and>
   s_winStatus example_redrawn 3 =
     FHE_eq (s_encryptedWinnerIndex example_redrawn) (FHE_asEuint32 1)"
proof -
  have a: "msg_sender (example_evm 1 1) = admin example_deployed"
    by (simp add: example_deployed_def constructor_def admin_def)
  have n: "s_participants example_deployed = []"
    by (simp add: example_deployed_def constructor_def)
  have e: "drawWinner (example_evm 1 1) example_deployed = Inl NoParticipants \<and>
      transact example_deployed (example_evm 1 1, DrawWinner) = example_deployed"
    using drawWinner_NoParticipants_iff [OF a] n by simp
  have a': "msg_sender (example_evm 1 4) = admin example_late"
    by (simp add: admin_def example_late_state)
  have d: "distinct (s_participants example_late)" by (simp add: example_late_state)
  have k: "1 < length (s_participants example_late)" by (simp add: example_late_state)
  have "s_winStatus example_redrawn (s_participants example_late ! 1) =
      FHE_eq (s_encryptedWinnerIndex example_redrawn) (FHE_asEuint32 (of_nat 1))"
    using drawWinner_NoParticipants_iff [OF a'] example_redraw_ok(1) d k by blast
  then have "s_winStatus example_redrawn 3 =
      FHE_eq (s_encryptedWinnerIndex example_redrawn) (FHE_asEuint32 1)"
    by (simp add: example_late_state)
  then show ?thesis using a n e a' d example_redraw_ok(1) by simp
qed

section \<open>Determinism of the draw\<close>

text \<open>
  C7. From the same state, two executions of \<open>drawWinner\<close> in the same block environment
  (block number, previous block hash, prevrandao, timestamp; the hash function is the
  same) compute the same winner index and the same randomness commitment, and when both
  succeed they end in the same state. When the callers and what the transactions pay for
  agree as well, the two results are the same, revert or final state. The winner index is
  a function of the previous block hash, prevrandao, the timestamp, the participant count
  and the last draw timestamp alone: it is the same from any state with that count and
  that last draw timestamp.
\<close>

theorem drawWinner_deterministic:
  assumes "block_number e1 = block_number e2"
    and "blockhash e1 (block_number e1 - 1) = blockhash e2 (block_number e2 - 1)"
    and "block_prevrandao e1 = block_prevrandao e2"
    and "block_timestamp e1 = block_timestamp e2"
    and "keccak256 e1 = keccak256 e2"
  shows "winnerIndex e1 s = winnerIndex e2 s \<and>
         commitment e1 s = commitment e2 s \<and>
         (\<forall>s1 s2. drawWinner e1 s = Inr s1 \<and> drawWinner e2 s = Inr s2 \<longrightarrow> s1 = s2) \<and>
         (msg_sender e1 = msg_sender e2 \<and> gas_passes e1 = gas_passes e2 \<longrightarrow>
            drawWinner e1 s = drawWinner e2 s) \<and>
         (\<forall>t. length (s_participants t) = length (s_participants s) \<and>
              s_lastDrawTimestamp t = s_lastDrawTimestamp s \<longrightarrow>
              winnerIndex e2 t = winnerIndex e1 s)"
proof -
  have seed: "randomSeed e2 t = randomSeed e1 s"
    if "length (s_participants t) = length (s_participants s)"
      and "s_lastDrawTimestamp t = s_lastDrawTimestamp s" for t
    using assms that by (simp add: randomSeed_def)
  have w: "winnerIndex e2 t = winnerIndex e1 s"
    if "length (s_participants t) = length (s_participants s)"
      and "s_lastDrawTimestamp t = s_lastDrawTimestamp s" for t
    using seed [OF that] that by (simp add: winnerIndex_def)
  have w0: "winnerIndex e1 s = winnerIndex e2 s" using w [of s] by simp
  have c: "commitment e1 s = commitment e2 s"
    using assms seed [of s] by (simp add: commitment_def)
  have both: "s1 = s2" if "drawWinner e1 s = Inr s1" and "drawWinner e2 s = Inr s2" for s1 s2
    unfolding drawWinner_Inr_eq [OF that(1)] drawWinner_Inr_eq [OF that(2)]
    unfolding w0 c assms(4) by (rule refl)
  have same: "drawWinner e1 s = drawWinner e2 s"
    if "msg_sender e1 = msg_sender e2" and "gas_passes e1 = gas_passes e2"
    unfolding drawWinner_def that assms(1) assms(4) w0 c by (rule refl)
  show ?thesis using w0 c both same w by blast
qed

theorem drawWinner_deterministic_witness:
  "winnerIndex (example_evm 1 2) example_registered =
     winnerIndex ((example_evm 1 2)\<lparr>verifyCiphertext := (\<lambda>h a p. False), gas_passes := 100\<rparr>)
       example_registered \<and>
   commitment (example_evm 1 2) example_registered =
     commitment ((example_evm 1 2)\<lparr>verifyCiphertext := (\<lambda>h a p. False), gas_passes := 100\<rparr>)
       example_registered \<and>
   drawWinner (example_evm 1 2) example_registered = Inr example_drawn \<and>
   drawWinner ((example_evm 1 2)\<lparr>verifyCiphertext := (\<lambda>h a p. False), gas_passes := 100\<rparr>)
       example_registered = Inr example_drawn"
proof -
  let ?e2 = "(example_evm 1 2)\<lparr>verifyCiphertext := (\<lambda>h a p. False), gas_passes := 100\<rparr>"
  have th: "winnerIndex (example_evm 1 2) example_registered =
        winnerIndex ?e2 example_registered \<and>
      commitment (example_evm 1 2) example_registered = commitment ?e2 example_registered \<and>
      (\<forall>s1 s2. drawWinner (example_evm 1 2) example_registered = Inr s1 \<and>
         drawWinner ?e2 example_registered = Inr s2 \<longrightarrow> s1 = s2) \<and>
      (msg_sender (example_evm 1 2) = msg_sender ?e2 \<and>
       gas_passes (example_evm 1 2) = gas_passes ?e2 \<longrightarrow>
         drawWinner (example_evm 1 2) example_registered = drawWinner ?e2 example_registered) \<and>
      (\<forall>t. length (s_participants t) = length (s_participants example_registered) \<and>
           s_lastDrawTimestamp t = s_lastDrawTimestamp example_registered \<longrightarrow>
           winnerIndex ?e2 t = winnerIndex (example_evm 1 2) example_registered)"
    by (rule drawWinner_deterministic) simp_all
  have "\<exists>s2. drawWinner ?e2 example_registered = Inr s2"
    unfolding drawWinner_Inr_iff by (simp add: example_registered_state)
  then obtain s2 where s2: "drawWinner ?e2 example_registered = Inr s2" ..
  then have "s2 = example_drawn" using th example_draw_ok(1) by metis
  then show ?thesis using th s2 example_draw_ok(1) by metis
qed

section \<open>The capacity\<close>

text \<open>
  C8, as stated, fails in its second half: in the example run the list is full after the
  second registration, and a further \<open>register\<close> by account 2, which is registered, reverts
  with \<open>AlreadyRegistered\<close>, the first check of \<open>register\<close>, not with the capacity message.
\<close>

theorem register_at_capacity_counterexample:
  "participantCount example_late = maxParticipants example_late \<and>
   register (example_evm 2 5) 44 [1] example_late = Inl AlreadyRegistered \<and>
   register (example_evm 2 5) 44 [1] example_late \<noteq> Inl (Error ''Maximum participants reached'')"
  by (simp add: register_Inl_iff participantCount_def maxParticipants_def example_late_state)

text \<open>
  C8, amended. In every state reached from a deployment with \<open>maxParticipants = m\<close>,
  \<open>maxParticipants()\<close> is \<open>m\<close> and \<open>participantCount()\<close> is at most \<open>m\<close>; and when
  \<open>participantCount()\<close> equals \<open>maxParticipants()\<close>, a \<open>register\<close> by a caller that is not
  registered reverts with the message \<^verbatim>\<open>Maximum participants reached\<close> and the transaction
  leaves the state as it was.
\<close>

theorem capacity_respected:
  "maxParticipants (run (constructor deployer this m) txs) = m \<and>
   participantCount (run (constructor deployer this m) txs) \<le> m \<and>
   (participantCount (run (constructor deployer this m) txs) = m \<and>
    \<not> isRegistered (run (constructor deployer this m) txs) (msg_sender e) \<longrightarrow>
      register e x p (run (constructor deployer this m) txs) =
        Inl (Error ''Maximum participants reached'') \<and>
      transact (run (constructor deployer this m) txs) (e, Register x p) =
        run (constructor deployer this m) txs)"
proof -
  let ?s = "run (constructor deployer this m) txs"
  have mx: "MAX_PARTICIPANTS ?s = m"
    using run_immutables [of "constructor deployer this m" txs] by (simp add: constructor_def)
  have cap: "within_capacity ?s"
    by (rule within_capacity_run) (rule within_capacity_constructor)
  have le: "participantCount ?s \<le> m"
    using participantCount_le [OF cap] by (simp add: maxParticipants_def mx)
  have full: "register e x p ?s = Inl (Error ''Maximum participants reached'') \<and>
      transact ?s (e, Register x p) = ?s"
    if c: "participantCount ?s = m" and n: "\<not> isRegistered ?s (msg_sender e)"
  proof -
    have "unat (participantCount ?s) = length (s_participants ?s)"
      using cap by (simp add: unat_participantCount within_capacity_def)
    then have "unat (MAX_PARTICIPANTS ?s) \<le> length (s_participants ?s)"
      using c mx by simp
    then have "register e x p ?s = Inl (Error ''Maximum participants reached'')"
      using n by (simp add: register_Inl_iff isRegistered_def)
    then show ?thesis by (simp add: transact_def)
  qed
  show ?thesis using mx le full by (simp add: maxParticipants_def)
qed

theorem capacity_respected_witness:
  "maxParticipants example_late = 2 \<and>
   participantCount example_late = 2 \<and>
   \<not> isRegistered example_late (msg_sender (example_evm 4 5)) \<and>
   register (example_evm 4 5) 44 [1] example_late = Inl (Error ''Maximum participants reached'') \<and>
   transact example_late (example_evm 4 5, Register 44 [1]) = example_late"
proof -
  have c: "participantCount example_late = 2"
    by (simp add: participantCount_def example_late_state)
  have n: "\<not> isRegistered example_late (msg_sender (example_evm 4 5))"
    by (simp add: isRegistered_def example_late_state)
  show ?thesis
    using capacity_respected [of 1 99 2
        "[(example_evm 2 1, Register 42 [1]), (example_evm 1 2, DrawWinner),
          (example_evm 3 3, Register 43 [1])]" "example_evm 4 5" 44 "[1]"] c n
    unfolding example_late_run [symmetric] by simp
qed

section \<open>Registering after a draw\<close>

text \<open>
  C9. A \<open>register\<close> that succeeds after a draw grants the caller access to the stored
  encrypted winner index, leaves that index as it was, and sets the caller's win status to
  the encryption of false. Through every later run of transactions without a successful
  draw the index stays as it was, the caller keeps the grant, and the caller's win status
  is still that ciphertext and decrypts to false, whatever slot the caller was assigned.
  In a state reached from a deployment the stored winner index is below the number of
  participants, so it is below the caller's slot as long as the list has fewer than
  \<open>2\<^sup>3\<^sup>2\<close> entries. The slot may equal the stored winner index all the same: in the
  crowded deployment account 0 registers, the administrator draws, and the accounts
  \<open>1, \<dots>, 2\<^sup>3\<^sup>2 - 1\<close> register; account \<open>2\<^sup>3\<^sup>2\<close> then registers, at position \<open>2\<^sup>3\<^sup>2\<close>, and
  its slot \<^verbatim>\<open>uint32(2^32) = 0\<close> is the stored winner index.
\<close>

theorem register_after_draw:
  assumes "s_hasDrawn s" and "register e x p s = Inr s'" and "no_draw s' txs"
  shows "(s_encryptedWinnerIndex s, msg_sender e) \<in> acl s' \<and>
         s_encryptedWinnerIndex s' = s_encryptedWinnerIndex s \<and>
         s_winStatus s' (msg_sender e) = FHE_asEbool False \<and>
         s_indices s' (msg_sender e) = of_nat (length (s_participants s)) \<and>
         (s_encryptedWinnerIndex s, msg_sender e) \<in> acl (run s' txs) \<and>
         s_encryptedWinnerIndex (run s' txs) = s_encryptedWinnerIndex s \<and>
         getEncryptedWinStatus (run s' txs) (msg_sender e) = Inr (FHE_asEbool False) \<and>
         decryptBool (s_winStatus (run s' txs) (msg_sender e)) = Some False \<and>
         (\<forall>deployer this m pre. s = run (constructor deployer this m) pre \<longrightarrow>
            (\<exists>w. decrypt32 (s_encryptedWinnerIndex s') = Some w \<and>
                 unat w < length (s_participants s) \<and>
                 (length (s_participants s) < 2 ^ 32 \<longrightarrow>
                    unat w < unat (s_indices s' (msg_sender e))))) \<and>
         (\<exists>deployer this m pre e' x' p' t'.
            s_hasDrawn (run (constructor deployer this m) pre) \<and>
            register e' x' p' (run (constructor deployer this m) pre) = Inr t' \<and>
            decryptBool (s_winStatus t' (msg_sender e')) = Some False \<and>
            decrypt32 (s_encryptedWinnerIndex t') = Some (s_indices t' (msg_sender e')))"
proof -
  note f = register_Inr_fields [OF assms(2)]
  have reg: "s_registered s' (msg_sender e)" by (simp add: f(5))
  note k = run_no_draw_keeps [OF reg assms(3)]
  have g: "(s_encryptedWinnerIndex s, msg_sender e) \<in> acl s'" using assms(1) by (simp add: f(12))
  have w: "s_winStatus s' (msg_sender e) = FHE_asEbool False" by (simp add: f(8) FHE_asEbool_def)
  have "s_registered (run s' txs) (msg_sender e)" using reg by (rule run_registered)
  then have v: "getEncryptedWinStatus (run s' txs) (msg_sender e) = Inr (FHE_asEbool False)"
    using k w by (simp add: getEncryptedWinStatus_def)
  have d: "decryptBool (s_winStatus (run s' txs) (msg_sender e)) = Some False"
    using k w by (simp add: FHE_asEbool_def)
  have first: "(s_encryptedWinnerIndex s, msg_sender e) \<in> acl s' \<and>
         s_encryptedWinnerIndex s' = s_encryptedWinnerIndex s \<and>
         s_winStatus s' (msg_sender e) = FHE_asEbool False \<and>
         s_indices s' (msg_sender e) = of_nat (length (s_participants s)) \<and>
         (s_encryptedWinnerIndex s, msg_sender e) \<in> acl (run s' txs) \<and>
         s_encryptedWinnerIndex (run s' txs) = s_encryptedWinnerIndex s \<and>
         getEncryptedWinStatus (run s' txs) (msg_sender e) = Inr (FHE_asEbool False) \<and>
         decryptBool (s_winStatus (run s' txs) (msg_sender e)) = Some False"
    using g w v d k f(6,9) by auto
  have slot: "\<exists>w. decrypt32 (s_encryptedWinnerIndex s') = Some w \<and>
                 unat w < length (s_participants s) \<and>
                 (length (s_participants s) < 2 ^ 32 \<longrightarrow>
                    unat w < unat (s_indices s' (msg_sender e)))"
    if r: "s = run (constructor deployer this m) pre" for deployer this m pre
  proof -
    have "winner_in_range s"
      unfolding r by (rule winner_in_range_run) (simp add: winner_in_range_def constructor_def)
    then obtain w where w: "s_encryptedWinnerIndex s = TrivialEncrypt32 w"
        "unat w < length (s_participants s)"
      using assms(1) by (auto simp add: winner_in_range_def)
    have "unat (of_nat (length (s_participants s)) :: uint32) = length (s_participants s)"
      if "length (s_participants s) < 2 ^ 32"
      using that by (simp add: unat_of_nat)
    then show ?thesis using w by (simp add: f(6,9))
  qed
  have wrap: "\<exists>deployer this m pre e' x' p' t'.
            s_hasDrawn (run (constructor deployer this m) pre) \<and>
            register e' x' p' (run (constructor deployer this m) pre) = Inr t' \<and>
            decryptBool (s_winStatus t' (msg_sender e')) = Some False \<and>
            decrypt32 (s_encryptedWinnerIndex t') = Some (s_indices t' (msg_sender e'))"
  proof -
    let ?e = "example_evm (2 ^ 32) 1" and ?t = "crowded (2 ^ 32 + 1)"
    have "s_hasDrawn (run (constructor 1 (2 ^ 100) (2 ^ 34)) (crowd (2 ^ 32))) \<and>
        register ?e (2 ^ 32) [1] (run (constructor 1 (2 ^ 100) (2 ^ 34)) (crowd (2 ^ 32))) =
          Inr ?t \<and>
        decryptBool (s_winStatus ?t (msg_sender ?e)) = Some False \<and>
        decrypt32 (s_encryptedWinnerIndex ?t) = Some (s_indices ?t (msg_sender ?e))"
      unfolding crowded_wrap(3)
      using crowded_wrap(1,2,4,5) unfolding crowded_def [of "2 ^ 32"] by (intro conjI)
    then show ?thesis by blast
  qed
  show ?thesis using first slot wrap by blast
qed

theorem register_after_draw_witness:
  "s_hasDrawn (crowded 1) \<and>
   register (example_evm 1 1) 1 [1] (crowded 1) = Inr (crowded 2) \<and>
   no_draw (crowded 2) [join 2, (example_evm 5 4, DrawWinner)] \<and>
   run (crowded 2) [join 2, (example_evm 5 4, DrawWinner)] = crowded 3 \<and>
   s_participants (crowded 2) = [0, 1] \<and>
   s_participants (crowded 3) = [0, 1, 2] \<and>
   s_indices (crowded 2) 1 = 1 \<and>
   (TrivialEncrypt32 0, 1) \<in> acl (crowded 3) \<and>
   s_encryptedWinnerIndex (crowded 3) = TrivialEncrypt32 0 \<and>
   decryptBool (s_winStatus (crowded 3) 1) = Some False"
proof -
  have h: "s_hasDrawn (crowded 1)" by (rule crowded_1(5))
  have b: "(1::nat) \<le> 1" "(1::nat) < 2 ^ 34" "(1::nat) \<le> 2" by simp_all
  have s3: "Suc 2 = 3" by simp
  have r: "register (example_evm 1 1) 1 [1] (crowded 1) = Inr (crowded 2)"
    using crowded_join [OF b(1,2)] unfolding of_nat_1 Suc_1 .
  have t: "transact (crowded 2) (join 2) = crowded 3"
    using crowded_Suc [OF b(3)] unfolding s3 by (rule sym)
  have a: "ADMIN_ADDRESS (crowded 3) = 1" using crowded_state [of 3] by simp
  have d: "drawWinner (example_evm 5 4) (crowded 3) = Inl NotAuthorized"
    by (simp add: drawWinner_Inl_iff a)
  have j: "join 2 = (example_evm 2 1, Register 2 [1])" by (simp add: join_def)
  have t': "transact (crowded 2) (example_evm 2 1, Register 2 [1]) = crowded 3"
    using t unfolding j .
  have n: "no_draw (crowded 2) [join 2, (example_evm 5 4, DrawWinner)]"
    by (simp add: j t' d)
  have td: "transact (crowded 3) (example_evm 5 4, DrawWinner) = crowded 3"
    by (simp add: transact_def d)
  have u: "run (crowded 2) [join 2, (example_evm 5 4, DrawWinner)] = crowded 3"
    by (simp add: t td)
  have p2: "s_participants (crowded 2) = [0, 1]"
    using crowded_state [of 2] by (simp add: first_addresses_def upt_rec)
  have p3: "s_participants (crowded 3) = [0, 1, 2]"
    using crowded_state [of 3] by (simp add: first_addresses_def upt_rec)
  have w: "s_encryptedWinnerIndex (crowded 1) = TrivialEncrypt32 0" by (rule crowded_1(6))
  have l: "length (s_participants (crowded 1)) = 1" unfolding crowded_1(3) by simp
  note th = register_after_draw [OF h r n, unfolded u w l]
  have i: "s_indices (crowded 2) 1 = 1" using th by simp
  have g: "(TrivialEncrypt32 0, 1) \<in> acl (crowded 3)" using th by simp
  have k: "s_encryptedWinnerIndex (crowded 3) = TrivialEncrypt32 0" using th by blast
  have f: "decryptBool (s_winStatus (crowded 3) 1) = Some False" using th by simp
  show ?thesis using h r n u p2 p3 i g k f by (intro conjI)
qed

section \<open>The registry invariant\<close>

text \<open>
  C10 does not hold of the code. In the crowded deployment the registry is consistent
  after \<open>2\<^sup>3\<^sup>2\<close> registrations; the next \<open>register\<close>, by account \<open>2\<^sup>3\<^sup>2\<close>, succeeds and puts
  the caller at position \<open>2\<^sup>3\<^sup>2\<close> of the array, but the slot it stores and the index of
  the event it emits are \<^verbatim>\<open>uint32(2^32) = 0\<close>, not the position: the registry is no longer
  consistent.
\<close>

theorem registry_slot_wraps:
  "registry_consistent (crowded (2 ^ 32)) \<and>
   length (s_participants (crowded (2 ^ 32))) = 2 ^ 32 \<and>
   register (example_evm (2 ^ 32) 1) (2 ^ 32) [1] (crowded (2 ^ 32)) =
     Inr (crowded (2 ^ 32 + 1)) \<and>
   s_participants (crowded (2 ^ 32 + 1)) ! (2 ^ 32) = 2 ^ 32 \<and>
   s_indices (crowded (2 ^ 32 + 1)) (2 ^ 32) = 0 \<and>
   last (logs (crowded (2 ^ 32 + 1))) = ParticipantRegistered (2 ^ 32) 0 \<and>
   \<not> registry_consistent (crowded (2 ^ 32 + 1))"
proof -
  have c: "registry_consistent (crowded (2 ^ 32))"
  proof (rule registry_ok_consistent)
    show "registry_ok (crowded (2 ^ 32))"
      unfolding crowded_def by (rule registry_ok_run) (rule registry_ok_constructor)
    show "length (s_participants (crowded (2 ^ 32))) \<le> 2 ^ 32"
      unfolding crowded_wrap(6) by (rule order_refl)
  qed
  have l: "2 ^ 32 < length (s_participants (crowded (2 ^ 32 + 1)))"
    unfolding crowded_wrap(9) by simp
  have "\<not> registry_consistent (crowded (2 ^ 32 + 1))"
  proof
    assume "registry_consistent (crowded (2 ^ 32 + 1))"
    then have "unat (s_indices (crowded (2 ^ 32 + 1))
        (s_participants (crowded (2 ^ 32 + 1)) ! (2 ^ 32))) = 2 ^ 32"
      using l unfolding registry_consistent_def by blast
    then show False unfolding crowded_wrap(7) crowded_wrap(10) by simp
  qed
  then show ?thesis using c crowded_wrap(2,6,7,8,10) by (intro conjI)
qed

theorem registry_slot_wraps_witness:
  "2 ^ 32 < length (s_participants (crowded (2 ^ 32 + 1))) \<and>
   unat (s_indices (crowded (2 ^ 32 + 1)) (s_participants (crowded (2 ^ 32 + 1)) ! (2 ^ 32)))
     = 0"
proof -
  have p: "s_participants (crowded (2 ^ 32 + 1)) ! (2 ^ 32) = 2 ^ 32"
    and i: "s_indices (crowded (2 ^ 32 + 1)) (2 ^ 32) = 0"
    using registry_slot_wraps by blast+
  have l: "2 ^ 32 < length (s_participants (crowded (2 ^ 32 + 1)))"
    unfolding crowded_wrap(9) by simp
  have "unat (s_indices (crowded (2 ^ 32 + 1))
      (s_participants (crowded (2 ^ 32 + 1)) ! (2 ^ 32))) = 0"
    unfolding p i by simp
  with l show ?thesis by (intro conjI)
qed

text \<open>
  What does hold: the registry of a fresh deployment is consistent, and every transaction
  on a consistent registry of fewer than \<open>2\<^sup>3\<^sup>2\<close> participants leaves it consistent; so the
  registry is consistent in every state reached from a deployment whose capacity is at
  most \<open>2\<^sup>3\<^sup>2\<close>. A successful \<open>register\<close> puts the caller at the end of the array and its
  event carries \<^verbatim>\<open>uint32\<close> of that position.
\<close>

lemma registry_preserved_below:
  "registry_consistent (constructor deployer this m) \<and>
   (registry_consistent s \<and> length (s_participants s) < 2 ^ 32 \<longrightarrow>
      registry_consistent (transact s tx)) \<and>
   (unat m \<le> 2 ^ 32 \<longrightarrow> registry_consistent (run (constructor deployer this m) txs)) \<and>
   (registry_ok s \<longrightarrow> registry_ok (transact s tx)) \<and>
   (\<forall>s'. register e x p s = Inr s' \<longrightarrow>
      s_participants s' ! length (s_participants s) = msg_sender e \<and>
      last (logs s') =
        ParticipantRegistered (msg_sender e) (of_nat (length (s_participants s))))"
proof (intro conjI impI allI)
  show "registry_consistent (constructor deployer this m)"
    by (simp add: registry_consistent_def constructor_def isRegistered_def)
next
  assume a: "registry_consistent s \<and> length (s_participants s) < 2 ^ 32"
  then have ok: "registry_ok (transact s tx)"
    using registry_consistent_ok registry_ok_transact by blast
  have "length (s_participants (transact s tx)) \<le> 2 ^ 32"
  proof (cases rule: transact_cases [of tx s])
    case (reverted err)
    then show ?thesis using a by simp
  next
    case (registered x p)
    then show ?thesis using register_Inr_fields(4) [OF registered(2)] a by simp
  next
    case drawn
    then show ?thesis using drawWinner_Inr_fields(6) [OF drawn(2)] a by simp
  qed
  with ok show "registry_consistent (transact s tx)" by (rule registry_ok_consistent)
next
  assume m: "unat m \<le> 2 ^ 32"
  let ?s = "run (constructor deployer this m) txs"
  have "MAX_PARTICIPANTS ?s = m"
    using run_immutables [of "constructor deployer this m" txs] by (simp add: constructor_def)
  moreover have "within_capacity ?s"
    by (rule within_capacity_run) (rule within_capacity_constructor)
  ultimately have "length (s_participants ?s) \<le> 2 ^ 32"
    using m by (simp add: within_capacity_def)
  moreover have "registry_ok ?s" by (rule registry_ok_run) (rule registry_ok_constructor)
  ultimately show "registry_consistent ?s" by (rule registry_ok_consistent [rotated])
next
  assume "registry_ok s"
  then show "registry_ok (transact s tx)" by (rule registry_ok_transact)
next
  fix s' assume r: "register e x p s = Inr s'"
  show "s_participants s' ! length (s_participants s) = msg_sender e"
    by (simp add: register_Inr_fields(4) [OF r])
  show "last (logs s') =
        ParticipantRegistered (msg_sender e) (of_nat (length (s_participants s)))"
    by (simp add: register_Inr_fields(13) [OF r])
qed

end
